theory Spec2Isabelle
  imports Main "HOL-Library.Tree" "HOL-Library.Monad_Syntax" "HOL-Library.Word"
begin

section \<open>Nodes, pointers and the store\<close>

text \<open>
  A \<open>Node*\<close> is an optional address: \<open>None\<close> is \<open>nullptr\<close>. The store maps the address of
  every live node to its fields; \<open>delete\<close> removes the address from the store. Reading or
  writing through \<open>nullptr\<close> or through the address of a deleted node has no defined result
  in C++; every operation of the model returns \<open>None\<close> there. A loop that never ends has
  the value \<open>None\<close> as well (\<^theory_text>\<open>partial_function (option)\<close>).

  \<open>RBTree<T>::Node\<close> and \<open>AVLTree<T>::Node\<close> have the same fields apart from the balance
  datum (\<open>color\<close> in rbtree.h, \<open>balanceFactor\<close> in avltree.h); the field \<open>bal\<close> holds it,
  at type \<open>RBColor\<close> or \<open>int\<close>. The element type \<open>T\<close> is any linear order.
\<close>

type_synonym addr = nat
type_synonym ptr = "addr option"

datatype RBColor = Red | Black

record ('a, 'm) node =
  item :: 'a
  bal :: 'm
  left :: ptr
  right :: ptr
  parent :: ptr

record ('a, 'm) tree_obj =
  store :: "addr \<Rightarrow> ('a, 'm) node option"
  root :: ptr

type_synonym 'a RBTree = "('a, RBColor) tree_obj"
type_synonym 'a AVLTree = "('a, int) tree_obj"

abbreviation color :: "('a, RBColor) node \<Rightarrow> RBColor" where
  "color \<equiv> bal"

abbreviation balanceFactor :: "('a, int) node \<Rightarrow> int" where
  "balanceFactor \<equiv> bal"

text \<open>\<open>rd t p\<close> is the node \<open>*p\<close>; \<open>fld f t p\<close> is the field \<open>p->f\<close>.\<close>

definition rd :: "('a, 'm) tree_obj \<Rightarrow> ptr \<Rightarrow> ('a, 'm) node option" where
  "rd t p = (case p of None \<Rightarrow> None | Some a \<Rightarrow> store t a)"

definition fld :: "(('a, 'm) node \<Rightarrow> 'b) \<Rightarrow> ('a, 'm) tree_obj \<Rightarrow> ptr \<Rightarrow> 'b option" where
  "fld f t p = (case rd t p of None \<Rightarrow> None | Some n \<Rightarrow> Some (f n))"

text \<open>\<open>wr t p g\<close> stores \<open>g (*p)\<close> at \<open>p\<close>: an assignment to one field of \<open>*p\<close>.\<close>

definition wr :: "('a, 'm) tree_obj \<Rightarrow> ptr \<Rightarrow> (('a, 'm) node \<Rightarrow> ('a, 'm) node) \<Rightarrow> ('a, 'm) tree_obj option" where
  "wr t p g = (case p of None \<Rightarrow> None
     | Some a \<Rightarrow> (case store t a of None \<Rightarrow> None
         | Some n \<Rightarrow> Some (t\<lparr>store := (store t)(a := Some (g n))\<rparr>)))"

definition set_left :: "('a, 'm) tree_obj \<Rightarrow> ptr \<Rightarrow> ptr \<Rightarrow> ('a, 'm) tree_obj option" where
  "set_left t p q = wr t p (\<lambda>n. n\<lparr>left := q\<rparr>)"

definition set_right :: "('a, 'm) tree_obj \<Rightarrow> ptr \<Rightarrow> ptr \<Rightarrow> ('a, 'm) tree_obj option" where
  "set_right t p q = wr t p (\<lambda>n. n\<lparr>right := q\<rparr>)"

definition set_parent :: "('a, 'm) tree_obj \<Rightarrow> ptr \<Rightarrow> ptr \<Rightarrow> ('a, 'm) tree_obj option" where
  "set_parent t p q = wr t p (\<lambda>n. n\<lparr>parent := q\<rparr>)"

definition set_bal :: "('a, 'm) tree_obj \<Rightarrow> ptr \<Rightarrow> 'm \<Rightarrow> ('a, 'm) tree_obj option" where
  "set_bal t p c = wr t p (\<lambda>n. n\<lparr>bal := c\<rparr>)"

text \<open>
  \<open>new Node(item)\<close>: the allocator hands out an address \<open>a\<close> that holds no live node
  (the model takes \<open>a\<close> as a parameter and has no result when \<open>a\<close> is live). The
  constructors set the balance datum to \<open>Red\<close> resp. \<open>0\<close> and every link to \<open>nullptr\<close>.
\<close>

definition new_node :: "('a, 'm) tree_obj \<Rightarrow> addr \<Rightarrow> 'a \<Rightarrow> 'm \<Rightarrow> ('a, 'm) tree_obj option" where
  "new_node t a x c = (case store t a of
       Some n \<Rightarrow> None
     | None \<Rightarrow> Some (t\<lparr>store := (store t)(a := Some \<lparr>item = x, bal = c, left = None, right = None, parent = None\<rparr>)\<rparr>))"

text \<open>\<open>delete p\<close>: deleting \<open>nullptr\<close> does nothing; deleting a node twice is undefined.\<close>

definition delete_node :: "('a, 'm) tree_obj \<Rightarrow> ptr \<Rightarrow> ('a, 'm) tree_obj option" where
  "delete_node t p = (case p of None \<Rightarrow> Some t
     | Some a \<Rightarrow> (case store t a of None \<Rightarrow> None
         | Some n \<Rightarrow> Some (t\<lparr>store := (store t)(a := None)\<rparr>)))"

definition empty_tree :: "('a, 'm) tree_obj" where
  "empty_tree = \<lparr>store = (\<lambda>a. None), root = None\<rparr>"

section \<open>Inorder iteration (ConstIterator of both trees)\<close>

text \<open>\<open>while (current->left != nullptr) current = current->left;\<close>\<close>

partial_function (option) descend_left :: "('a, 'm) tree_obj \<Rightarrow> ptr \<Rightarrow> ptr option" where
  "descend_left t current =
     (case rd t current of None \<Rightarrow> None
      | Some n \<Rightarrow> (case left n of None \<Rightarrow> Some current
                   | Some l \<Rightarrow> descend_left t (Some l)))"

declare descend_left.simps [code]

text \<open>\<open>ConstIterator(Node* current_)\<close>; \<open>begin()\<close> passes the root, \<open>end()\<close> passes \<open>nullptr\<close>.\<close>

definition ConstIterator :: "('a, 'm) tree_obj \<Rightarrow> ptr \<Rightarrow> ptr option" where
  "ConstIterator t current = (if current = None then Some None else descend_left t current)"

definition begin_it :: "('a, 'm) tree_obj \<Rightarrow> ptr option" where
  "begin_it t = ConstIterator t (root t)"

definition end_it :: "('a, 'm) tree_obj \<Rightarrow> ptr option" where
  "end_it t = ConstIterator t None"

text \<open>
  \<open>while (current->parent != nullptr && current->parent->right == current)
       current = current->parent;\<close>
\<close>

partial_function (option) ascend_right :: "('a, 'm) tree_obj \<Rightarrow> ptr \<Rightarrow> ptr option" where
  "ascend_right t current =
     (case rd t current of None \<Rightarrow> None
      | Some n \<Rightarrow> (case parent n of None \<Rightarrow> Some current
          | Some p \<Rightarrow> (case store t p of None \<Rightarrow> None
              | Some pn \<Rightarrow> if right pn = current then ascend_right t (Some p)
                            else Some current)))"

declare ascend_right.simps [code]

text \<open>\<open>ConstIterator::operator++\<close>\<close>

definition incr :: "('a, 'm) tree_obj \<Rightarrow> ptr \<Rightarrow> ptr option" where
  "incr t current =
     (case rd t current of None \<Rightarrow> None
      | Some n \<Rightarrow>
          if right n \<noteq> None then descend_left t (right n)
          else (case ascend_right t current of None \<Rightarrow> None
                | Some c \<Rightarrow> fld parent t c))"

text \<open>
  The loop \<open>for (itr = begin(); itr != end(); ++itr) out.Append(*itr)\<close>, from the
  iterator position \<open>itr\<close>: the items it appends.
\<close>

partial_function (option) iterate :: "('a, 'm) tree_obj \<Rightarrow> ptr \<Rightarrow> 'a list option" where
  "iterate t itr =
     (case itr of None \<Rightarrow> Some []
      | Some a \<Rightarrow> (case store t a of None \<Rightarrow> None
          | Some n \<Rightarrow> (case incr t itr of None \<Rightarrow> None
              | Some itr' \<Rightarrow> Option.bind (iterate t itr') (\<lambda>xs. Some (item n # xs)))))"

declare iterate.simps [code]

definition inorder_items :: "('a, 'm) tree_obj \<Rightarrow> 'a list option" where
  "inorder_items t = (case begin_it t of None \<Rightarrow> None | Some itr \<Rightarrow> iterate t itr)"


section \<open>Postorder iteration (ConstPostorder::Iterator of both trees)\<close>

text \<open>
  The iterator holds \<open>current\<close>, \<open>next\<close> and \<open>downwardPhase\<close>. \<open>po_while\<close> is the
  \<open>while (next != nullptr)\<close> loop of \<open>operator++\<close>; it leaves through \<open>break\<close> after a visit.
\<close>

type_synonym po_iter = "ptr \<times> ptr \<times> bool"

partial_function (option) po_while :: "('a, 'm) tree_obj \<Rightarrow> ptr \<Rightarrow> ptr \<Rightarrow> bool \<Rightarrow> po_iter option" where
  "po_while t current nxt downwardPhase =
     (case nxt of None \<Rightarrow> Some (current, nxt, downwardPhase)
      | Some a \<Rightarrow> (case store t a of None \<Rightarrow> None
          | Some n \<Rightarrow>
              if downwardPhase then
                (if right n \<noteq> None then
                   (case descend_left t (right n) of None \<Rightarrow> None
                    | Some d \<Rightarrow> po_while t current d downwardPhase)
                 else po_while t current nxt False)
              else
                (case parent n of None \<Rightarrow> Some (nxt, None, True)
                 | Some p \<Rightarrow> (case store t p of None \<Rightarrow> None
                     | Some pn \<Rightarrow> Some (nxt, parent n, (if right pn = nxt then downwardPhase else True))))))"

declare po_while.simps [code]

text \<open>\<open>ConstPostorder::Iterator::operator++\<close>\<close>

definition po_incr :: "('a, 'm) tree_obj \<Rightarrow> po_iter \<Rightarrow> po_iter option" where
  "po_incr t it = (case it of (current, nxt, downwardPhase) \<Rightarrow>
     po_while t (if nxt = None then None else current) nxt downwardPhase)"

text \<open>\<open>Iterator(Node* current_)\<close>; \<open>begin()\<close> passes the root, \<open>end()\<close> passes \<open>nullptr\<close>.\<close>

definition po_Iterator :: "('a, 'm) tree_obj \<Rightarrow> ptr \<Rightarrow> po_iter option" where
  "po_Iterator t current' =
     (if current' = None then Some (None, None, True)
      else (case descend_left t current' of None \<Rightarrow> None
            | Some d \<Rightarrow> po_incr t (None, d, True)))"

definition po_begin :: "('a, 'm) tree_obj \<Rightarrow> po_iter option" where
  "po_begin t = po_Iterator t (root t)"

definition po_end :: "po_iter" where
  "po_end = (None, None, True)"

text \<open>
  The loop \<open>for (itr = begin(); itr != end(); ++itr) out.Append(*itr)\<close> over the postorder
  adaptor, from the iterator \<open>it\<close>: the items it appends.
\<close>

partial_function (option) po_iterate :: "('a, 'm) tree_obj \<Rightarrow> po_iter \<Rightarrow> 'a list option" where
  "po_iterate t it =
     (if it = po_end then Some []
      else (case rd t (fst it) of None \<Rightarrow> None
          | Some n \<Rightarrow> (case po_incr t it of None \<Rightarrow> None
              | Some it' \<Rightarrow> Option.bind (po_iterate t it') (\<lambda>xs. Some (item n # xs)))))"

declare po_iterate.simps [code]

definition postorder_items :: "('a, 'm) tree_obj \<Rightarrow> 'a list option" where
  "postorder_items t = (case po_begin t of None \<Rightarrow> None | Some it \<Rightarrow> po_iterate t it)"

text \<open>
  \<open>Clear()\<close> of both trees:
  \<open>for (itr = ConstPostorder(*this).begin(); itr != ConstPostorder(*this).end(); ++itr)
       delete itr.GetNode();
   root = nullptr;\<close>
\<close>

partial_function (option) Clear_loop :: "('a, 'm) tree_obj \<Rightarrow> po_iter \<Rightarrow> ('a, 'm) tree_obj option" where
  "Clear_loop t it =
     (if it = po_end then Some t
      else (case delete_node t (fst it) of None \<Rightarrow> None
          | Some t' \<Rightarrow> (case po_incr t' it of None \<Rightarrow> None
              | Some it' \<Rightarrow> Clear_loop t' it')))"

declare Clear_loop.simps [code]

definition Clear :: "('a, 'm) tree_obj \<Rightarrow> ('a, 'm) tree_obj option" where
  "Clear t = (case po_begin t of None \<Rightarrow> None
     | Some it \<Rightarrow> (case Clear_loop t it of None \<Rightarrow> None
         | Some t' \<Rightarrow> Some (t'\<lparr>root := None\<rparr>)))"

section \<open>Search (both trees)\<close>

partial_function (option) Search_loop :: "('a::linorder, 'm) tree_obj \<Rightarrow> ptr \<Rightarrow> 'a \<Rightarrow> bool option" where
  "Search_loop t current x =
     (case current of None \<Rightarrow> Some False
      | Some a \<Rightarrow> (case store t a of None \<Rightarrow> None
          | Some n \<Rightarrow>
              if item n = x then Some True
              else if x < item n then Search_loop t (left n) x
              else Search_loop t (right n) x))"

declare Search_loop.simps [code]

definition Search :: "('a::linorder, 'm) tree_obj \<Rightarrow> 'a \<Rightarrow> bool option" where
  "Search t x = Search_loop t (root t) x"

section \<open>Red-black tree (rbtree.h)\<close>

subsection \<open>Rotations\<close>

definition LeftRotate :: "'a RBTree \<Rightarrow> ptr \<Rightarrow> 'a RBTree option" where
  "LeftRotate t x = do {
     y \<leftarrow> fld right t x;
     yl \<leftarrow> fld left t y;
     t \<leftarrow> set_right t x yl;
     yl \<leftarrow> fld left t y;
     t \<leftarrow> (if yl \<noteq> None then set_parent t yl x else Some t);
     xp \<leftarrow> fld parent t x;
     t \<leftarrow> set_parent t y xp;
     xp \<leftarrow> fld parent t x;
     t \<leftarrow> (if xp = None then Some (t\<lparr>root := y\<rparr>)
          else do {
            xpl \<leftarrow> fld left t xp;
            if x = xpl then set_left t xp y else set_right t xp y });
     t \<leftarrow> set_left t y x;
     set_parent t x y }"

definition RightRotate :: "'a RBTree \<Rightarrow> ptr \<Rightarrow> 'a RBTree option" where
  "RightRotate t x = do {
     y \<leftarrow> fld left t x;
     yr \<leftarrow> fld right t y;
     t \<leftarrow> set_left t x yr;
     yr \<leftarrow> fld right t y;
     t \<leftarrow> (if yr \<noteq> None then set_parent t yr x else Some t);
     xp \<leftarrow> fld parent t x;
     t \<leftarrow> set_parent t y xp;
     xp \<leftarrow> fld parent t x;
     t \<leftarrow> (if xp = None then Some (t\<lparr>root := y\<rparr>)
          else do {
            xpr \<leftarrow> fld right t xp;
            if x = xpr then set_right t xp y else set_left t xp y });
     t \<leftarrow> set_right t y x;
     set_parent t x y }"

subsection \<open>Insert\<close>

text \<open>\<open>p->parent->parent\<close>\<close>

definition grandparent :: "('a, 'm) tree_obj \<Rightarrow> ptr \<Rightarrow> ptr option" where
  "grandparent t p = do { q \<leftarrow> fld parent t p; fld parent t q }"

text \<open>\<open>y != nullptr && y->color == Red\<close>\<close>

definition is_red :: "'a RBTree \<Rightarrow> ptr \<Rightarrow> bool option" where
  "is_red t y = (if y = None then Some False else do { c \<leftarrow> fld color t y; Some (c = Red) })"

text \<open>The loop condition \<open>z != root && z->parent->color == Red\<close>.\<close>

definition InsertFixup_cond :: "'a RBTree \<Rightarrow> ptr \<Rightarrow> bool option" where
  "InsertFixup_cond t z =
     (if z = root t then Some False
      else do { zp \<leftarrow> fld parent t z; c \<leftarrow> fld color t zp; Some (c = Red) })"

text \<open>One pass through the body of the loop of \<open>InsertFixup\<close>: the new tree and the new \<open>z\<close>.\<close>

definition InsertFixup_body :: "'a RBTree \<Rightarrow> ptr \<Rightarrow> ('a RBTree \<times> ptr) option" where
  "InsertFixup_body t z = do {
     zp \<leftarrow> fld parent t z;
     zpp \<leftarrow> fld parent t zp;
     zppl \<leftarrow> fld left t zpp;
     if zp = zppl then do {
       y \<leftarrow> fld right t zpp;
       yred \<leftarrow> is_red t y;
       if yred then do {
         t \<leftarrow> set_bal t zp Black;
         t \<leftarrow> set_bal t y Black;
         zpp \<leftarrow> grandparent t z;
         t \<leftarrow> set_bal t zpp Red;
         zpp \<leftarrow> grandparent t z;
         Some (t, zpp) }
       else do {
         zpr \<leftarrow> fld right t zp;
         (t, z) \<leftarrow> (if z = zpr then do { t' \<leftarrow> LeftRotate t zp; Some (t', zp) } else Some (t, z));
         zp \<leftarrow> fld parent t z;
         t \<leftarrow> set_bal t zp Black;
         zpp \<leftarrow> grandparent t z;
         t \<leftarrow> set_bal t zpp Red;
         zpp \<leftarrow> grandparent t z;
         t \<leftarrow> RightRotate t zpp;
         Some (t, z) } }
     else do {
       y \<leftarrow> fld left t zpp;
       yred \<leftarrow> is_red t y;
       if yred then do {
         t \<leftarrow> set_bal t zp Black;
         t \<leftarrow> set_bal t y Black;
         zpp \<leftarrow> grandparent t z;
         t \<leftarrow> set_bal t zpp Red;
         zpp \<leftarrow> grandparent t z;
         Some (t, zpp) }
       else do {
         zpl \<leftarrow> fld left t zp;
         (t, z) \<leftarrow> (if z = zpl then do { t' \<leftarrow> RightRotate t zp; Some (t', zp) } else Some (t, z));
         zp \<leftarrow> fld parent t z;
         t \<leftarrow> set_bal t zp Black;
         zpp \<leftarrow> grandparent t z;
         t \<leftarrow> set_bal t zpp Red;
         zpp \<leftarrow> grandparent t z;
         t \<leftarrow> LeftRotate t zpp;
         Some (t, z) } } }"

partial_function (option) InsertFixup_loop :: "'a RBTree \<Rightarrow> ptr \<Rightarrow> 'a RBTree option" where
  "InsertFixup_loop t z =
     (case InsertFixup_cond t z of None \<Rightarrow> None
      | Some c \<Rightarrow>
          if c then (case InsertFixup_body t z of None \<Rightarrow> None
                     | Some s \<Rightarrow> InsertFixup_loop (fst s) (snd s))
          else Some t)"

declare InsertFixup_loop.simps [code]

definition InsertFixup :: "'a RBTree \<Rightarrow> ptr \<Rightarrow> 'a RBTree option" where
  "InsertFixup t z = do { t \<leftarrow> InsertFixup_loop t z; set_bal t (root t) Black }"

text \<open>
  The descent of \<open>Insert\<close>: \<open>Duplicate\<close> when an equal item is met (the \<open>return\<close> in the
  loop), otherwise \<open>Attach previous\<close>.
\<close>

datatype descent = Duplicate | Attach ptr

partial_function (option) RB_Insert_loop :: "'a::linorder RBTree \<Rightarrow> ptr \<Rightarrow> ptr \<Rightarrow> 'a \<Rightarrow> descent option" where
  "RB_Insert_loop t current previous x =
     (case current of None \<Rightarrow> Some (Attach previous)
      | Some a \<Rightarrow> (case store t a of None \<Rightarrow> None
          | Some n \<Rightarrow>
              if x < item n then RB_Insert_loop t (left n) current x
              else if x > item n then RB_Insert_loop t (right n) current x
              else Some Duplicate))"

declare RB_Insert_loop.simps [code]

text \<open>\<open>RBTree::Insert\<close>; \<open>a\<close> is the address \<open>new Node(item)\<close> returns.\<close>

definition RB_Insert :: "'a::linorder RBTree \<Rightarrow> addr \<Rightarrow> 'a \<Rightarrow> 'a RBTree option" where
  "RB_Insert t a x = do {
     t \<leftarrow> new_node t a x Red;
     d \<leftarrow> RB_Insert_loop t (root t) None x;
     case d of
       Duplicate \<Rightarrow> delete_node t (Some a)
     | Attach previous \<Rightarrow> do {
         t \<leftarrow> set_parent t (Some a) previous;
         t \<leftarrow> (if previous = None then Some (t\<lparr>root := Some a\<rparr>)
              else do {
                pitem \<leftarrow> fld item t previous;
                if x < pitem then set_left t previous (Some a) else set_right t previous (Some a) });
         InsertFixup t (Some a) } }"


subsection \<open>Remove\<close>

text \<open>\<open>p == nullptr || p->color == Black\<close>\<close>

definition null_or_black :: "'a RBTree \<Rightarrow> ptr \<Rightarrow> bool option" where
  "null_or_black t p = (if p = None then Some True else do { c \<leftarrow> fld color t p; Some (c = Black) })"

text \<open>
  \<open>(y->left == nullptr || y->left->color == Black) &&
     (y->right == nullptr || y->right->color == Black)\<close>, and its mirror image, with the
  operands in the order the source evaluates them.
\<close>

definition both_black :: "'a RBTree \<Rightarrow> ptr \<Rightarrow> ptr \<Rightarrow> bool option" where
  "both_black t p q = do { b \<leftarrow> null_or_black t p; if b then null_or_black t q else Some False }"

text \<open>The loop condition \<open>x != root && x->color == Black\<close>.\<close>

definition RemoveFixup_cond :: "'a RBTree \<Rightarrow> ptr \<Rightarrow> bool option" where
  "RemoveFixup_cond t x =
     (if x = root t then Some False else do { c \<leftarrow> fld color t x; Some (c = Black) })"

text \<open>One pass through the body of the loop of \<open>RemoveFixup\<close>: the new tree and the new \<open>x\<close>.\<close>

definition RemoveFixup_body :: "'a RBTree \<Rightarrow> ptr \<Rightarrow> ('a RBTree \<times> ptr) option" where
  "RemoveFixup_body t x = do {
     xp \<leftarrow> fld parent t x;
     xpl \<leftarrow> fld left t xp;
     if x = xpl then do {
       y \<leftarrow> fld right t xp;
       yc \<leftarrow> fld color t y;
       (t, y) \<leftarrow> (if yc = Red then do {
            t \<leftarrow> set_bal t y Black;
            xp \<leftarrow> fld parent t x;
            t \<leftarrow> set_bal t xp Red;
            xp \<leftarrow> fld parent t x;
            t \<leftarrow> LeftRotate t xp;
            xp \<leftarrow> fld parent t x;
            y \<leftarrow> fld right t xp;
            Some (t, y) }
          else Some (t, y));
       yl \<leftarrow> fld left t y;
       yr \<leftarrow> fld right t y;
       bb \<leftarrow> both_black t yl yr;
       if bb then do {
         t \<leftarrow> set_bal t y Red;
         xp \<leftarrow> fld parent t x;
         Some (t, xp) }
       else do {
         yr \<leftarrow> fld right t y;
         b \<leftarrow> null_or_black t yr;
         (t, y) \<leftarrow> (if b then do {
              yl \<leftarrow> fld left t y;
              t \<leftarrow> (if yl \<noteq> None then set_bal t yl Black else Some t);
              t \<leftarrow> set_bal t y Red;
              t \<leftarrow> RightRotate t y;
              xp \<leftarrow> fld parent t x;
              y \<leftarrow> fld right t xp;
              Some (t, y) }
            else Some (t, y));
         xp \<leftarrow> fld parent t x;
         xpc \<leftarrow> fld color t xp;
         t \<leftarrow> set_bal t y xpc;
         xpp \<leftarrow> grandparent t x;
         t \<leftarrow> (if xpp \<noteq> None then set_bal t xpp Black else Some t);
         yr \<leftarrow> fld right t y;
         t \<leftarrow> set_bal t yr Black;
         xp \<leftarrow> fld parent t x;
         t \<leftarrow> LeftRotate t xp;
         Some (t\<lparr>root := x\<rparr>, x) } }
     else do {
       y \<leftarrow> fld left t xp;
       yc \<leftarrow> fld color t y;
       (t, y) \<leftarrow> (if yc = Red then do {
            t \<leftarrow> set_bal t y Black;
            xp \<leftarrow> fld parent t x;
            t \<leftarrow> set_bal t xp Red;
            xp \<leftarrow> fld parent t x;
            t \<leftarrow> RightRotate t xp;
            xp \<leftarrow> fld parent t x;
            y \<leftarrow> fld left t xp;
            Some (t, y) }
          else Some (t, y));
       yr \<leftarrow> fld right t y;
       yl \<leftarrow> fld left t y;
       bb \<leftarrow> both_black t yr yl;
       if bb then do {
         t \<leftarrow> set_bal t y Red;
         xp \<leftarrow> fld parent t x;
         Some (t, xp) }
       else do {
         yl \<leftarrow> fld left t y;
         b \<leftarrow> null_or_black t yl;
         (t, y) \<leftarrow> (if b then do {
              yr \<leftarrow> fld right t y;
              t \<leftarrow> (if yr \<noteq> None then set_bal t yr Black else Some t);
              t \<leftarrow> set_bal t y Red;
              t \<leftarrow> LeftRotate t y;
              xp \<leftarrow> fld parent t x;
              y \<leftarrow> fld left t xp;
              Some (t, y) }
            else Some (t, y));
         xp \<leftarrow> fld parent t x;
         xpc \<leftarrow> fld color t xp;
         t \<leftarrow> set_bal t y xpc;
         xpp \<leftarrow> grandparent t x;
         t \<leftarrow> (if xpp \<noteq> None then set_bal t xpp Black else Some t);
         yl \<leftarrow> fld left t y;
         t \<leftarrow> set_bal t yl Black;
         xp \<leftarrow> fld parent t x;
         t \<leftarrow> RightRotate t xp;
         Some (t\<lparr>root := x\<rparr>, x) } } }"

partial_function (option) RemoveFixup_loop :: "'a RBTree \<Rightarrow> ptr \<Rightarrow> ('a RBTree \<times> ptr) option" where
  "RemoveFixup_loop t x =
     (case RemoveFixup_cond t x of None \<Rightarrow> None
      | Some c \<Rightarrow>
          if c then (case RemoveFixup_body t x of None \<Rightarrow> None
                     | Some s \<Rightarrow> RemoveFixup_loop (fst s) (snd s))
          else Some (t, x))"

declare RemoveFixup_loop.simps [code]

definition RemoveFixup :: "'a RBTree \<Rightarrow> ptr \<Rightarrow> 'a RBTree option" where
  "RemoveFixup t x = do { (t, x) \<leftarrow> RemoveFixup_loop t x; set_bal t x Black }"

text \<open>
  The descent of \<open>Remove\<close>: the node holding the item, or \<open>nullptr\<close>.
\<close>

partial_function (option) find_node :: "('a::linorder, 'm) tree_obj \<Rightarrow> ptr \<Rightarrow> 'a \<Rightarrow> ptr option" where
  "find_node t current x =
     (case current of None \<Rightarrow> Some None
      | Some a \<Rightarrow> (case store t a of None \<Rightarrow> None
          | Some n \<Rightarrow>
              if item n = x then Some current
              else if x < item n then find_node t (left n) x
              else find_node t (right n) x))"

declare find_node.simps [code]

text \<open>
  \<open>if (current == root) { root = child; child->parent = nullptr; balancePoint = root; }
   else if (current->parent->left == current) { current->parent->left = child; ... }
   else { current->parent->right = child; ... }\<close>
  for the two one-child cases of \<open>RBTree::Remove\<close> (\<open>child\<close> is the field \<open>left\<close> resp.
  \<open>right\<close> of \<open>current\<close>): the new tree and \<open>balancePoint\<close>.
\<close>

definition RB_splice_child :: "'a RBTree \<Rightarrow> ptr \<Rightarrow> (('a, RBColor) node \<Rightarrow> ptr) \<Rightarrow> ('a RBTree \<times> ptr) option" where
  "RB_splice_child t current child =
     (if current = root t then do {
        c \<leftarrow> fld child t current;
        t \<leftarrow> Some (t\<lparr>root := c\<rparr>);
        c \<leftarrow> fld child t current;
        t \<leftarrow> set_parent t c None;
        Some (t, root t) }
      else do {
        cp \<leftarrow> fld parent t current;
        cpl \<leftarrow> fld left t cp;
        if cpl = current then do {
          c \<leftarrow> fld child t current;
          t \<leftarrow> set_left t cp c;
          balancePoint \<leftarrow> fld child t current;
          cp \<leftarrow> fld parent t current;
          t \<leftarrow> set_parent t balancePoint cp;
          Some (t, balancePoint) }
        else do {
          c \<leftarrow> fld child t current;
          t \<leftarrow> set_right t cp c;
          balancePoint \<leftarrow> fld child t current;
          cp \<leftarrow> fld parent t current;
          t \<leftarrow> set_parent t balancePoint cp;
          Some (t, balancePoint) } })"

text \<open>
  The structural part of \<open>RBTree::Remove\<close> for the node \<open>current\<close> found by the descent
  (lines 250 to 344 of rbtree.h): the new tree and \<open>balancePoint\<close>.
\<close>

definition RB_unlink :: "'a RBTree \<Rightarrow> ptr \<Rightarrow> ('a RBTree \<times> ptr) option" where
  "RB_unlink t current = do {
     cl \<leftarrow> fld left t current;
     cr \<leftarrow> fld right t current;
     if cl = None \<and> cr = None then
       (if current = root t then Some (t\<lparr>root := None\<rparr>, None)
        else do {
          cp \<leftarrow> fld parent t current;
          cpl \<leftarrow> fld left t cp;
          if cpl = current then do { t \<leftarrow> set_left t cp None; Some (t, None) }
          else do { t \<leftarrow> set_right t cp None; Some (t, None) } })
     else if cl \<noteq> None \<and> cr = None then RB_splice_child t current left
     else if cl = None \<and> cr \<noteq> None then RB_splice_child t current right
     else do {
       replacement \<leftarrow> descend_left t cr;
       t \<leftarrow> set_left t replacement cl;
       cl \<leftarrow> fld left t current;
       t \<leftarrow> set_parent t cl replacement;
       temp \<leftarrow> fld color t replacement;
       cc \<leftarrow> fld color t current;
       t \<leftarrow> set_bal t replacement cc;
       t \<leftarrow> set_bal t current temp;
       balancePoint \<leftarrow> fld right t replacement;
       rp \<leftarrow> fld parent t replacement;
       t \<leftarrow> (if rp \<noteq> current then do {
            rr \<leftarrow> fld right t replacement;
            t \<leftarrow> set_left t rp rr;
            cr \<leftarrow> fld right t current;
            t \<leftarrow> set_right t replacement cr;
            cr \<leftarrow> fld right t current;
            set_parent t cr replacement }
          else Some t);
       t \<leftarrow> (if current = root t then do {
            t \<leftarrow> Some (t\<lparr>root := replacement\<rparr>);
            set_parent t replacement None }
          else do {
            cp \<leftarrow> fld parent t current;
            cpl \<leftarrow> fld left t cp;
            if cpl = current then do {
              t \<leftarrow> set_left t cp replacement;
              cp \<leftarrow> fld parent t current;
              set_parent t replacement cp }
            else do {
              t \<leftarrow> set_right t cp replacement;
              cp \<leftarrow> fld parent t current;
              set_parent t replacement cp } });
       Some (t, balancePoint) } }"

text \<open>\<open>RBTree::Remove\<close>\<close>

definition RB_Remove :: "'a::linorder RBTree \<Rightarrow> 'a \<Rightarrow> 'a RBTree option" where
  "RB_Remove t x = do {
     current \<leftarrow> find_node t (root t) x;
     if current = None then Some t
     else do {
       (t, balancePoint) \<leftarrow> RB_unlink t current;
       cc \<leftarrow> fld color t current;
       t \<leftarrow> (if balancePoint \<noteq> None \<and> cc = Black then RemoveFixup t balancePoint else Some t);
       delete_node t current } }"

subsection \<open>IsValid\<close>

text \<open>
  The first loop of \<open>IsValid\<close>, from the iterator \<open>itr\<close>: \<open>Some False\<close> when the loop
  executes \<open>return false\<close>, \<open>Some True\<close> when it runs to \<open>end()\<close>.
\<close>

definition red_with_red_child :: "'a RBTree \<Rightarrow> ptr \<Rightarrow> bool option" where
  "red_with_red_child t current = do {
     c \<leftarrow> fld color t current;
     if c = Red then do {
       l \<leftarrow> fld left t current;
       lred \<leftarrow> is_red t l;
       if lred then Some True
       else do { r \<leftarrow> fld right t current; is_red t r } }
     else Some False }"

partial_function (option) IsValid_red_loop :: "'a RBTree \<Rightarrow> ptr \<Rightarrow> bool option" where
  "IsValid_red_loop t itr =
     (case itr of None \<Rightarrow> Some True
      | Some a \<Rightarrow> (case red_with_red_child t itr of None \<Rightarrow> None
          | Some bad \<Rightarrow>
              if bad then Some False
              else (case incr t itr of None \<Rightarrow> None
                    | Some itr' \<Rightarrow> IsValid_red_loop t itr')))"

declare IsValid_red_loop.simps [code]

text \<open>\<open>while (ancestor != nullptr) { if (ancestor->color == Black) blackNodeCount++; ... }\<close>\<close>

partial_function (option) count_black :: "'a RBTree \<Rightarrow> ptr \<Rightarrow> int \<Rightarrow> int option" where
  "count_black t ancestor blackNodeCount =
     (case ancestor of None \<Rightarrow> Some blackNodeCount
      | Some a \<Rightarrow> (case store t a of None \<Rightarrow> None
          | Some n \<Rightarrow> count_black t (parent n)
                        (if color n = Black then blackNodeCount + 1 else blackNodeCount)))"

declare count_black.simps [code]

text \<open>The second loop of \<open>IsValid\<close>, from the postorder iterator \<open>it\<close> with \<open>mainCount\<close>.\<close>

partial_function (option) IsValid_black_loop :: "'a RBTree \<Rightarrow> po_iter \<Rightarrow> int \<Rightarrow> bool option" where
  "IsValid_black_loop t it mainCount =
     (if it = po_end then Some True
      else (case rd t (fst it) of None \<Rightarrow> None
          | Some n \<Rightarrow>
              if left n \<noteq> None \<or> right n \<noteq> None then
                (case po_incr t it of None \<Rightarrow> None
                 | Some it' \<Rightarrow> IsValid_black_loop t it' mainCount)
              else (case count_black t (fst it) 0 of None \<Rightarrow> None
                 | Some blackNodeCount \<Rightarrow>
                     if mainCount = - 1 then
                       (case po_incr t it of None \<Rightarrow> None
                        | Some it' \<Rightarrow> IsValid_black_loop t it' blackNodeCount)
                     else if blackNodeCount \<noteq> mainCount then Some False
                     else (case po_incr t it of None \<Rightarrow> None
                        | Some it' \<Rightarrow> IsValid_black_loop t it' mainCount))))"

declare IsValid_black_loop.simps [code]

text \<open>\<open>RBTree::IsValid\<close>\<close>

definition RB_IsValid :: "'a RBTree \<Rightarrow> bool option" where
  "RB_IsValid t = do {
     rootred \<leftarrow> (if root t \<noteq> None then do { c \<leftarrow> fld color t (root t); Some (c \<noteq> Black) } else Some False);
     if rootred then Some False
     else do {
       itr \<leftarrow> begin_it t;
       ok \<leftarrow> IsValid_red_loop t itr;
       if \<not> ok then Some False
       else do {
         it \<leftarrow> po_begin t;
         IsValid_black_loop t it (- 1) } } }"


section \<open>AVL tree (avltree.h)\<close>

text \<open>
  \<open>balanceFactor\<close> is a C++ \<open>int\<close>; the model uses \<open>int\<close>, since the factor of a node moves
  by one per operation and cannot reach the bounds of a machine integer. The heights of
  \<open>CalculateHeight\<close> are \<open>unsigned int\<close> and are modelled as 32-bit words, whose decrement
  wraps.
\<close>

subsection \<open>Rotations and Balance\<close>

definition AVL_RightRotate :: "'a AVLTree \<Rightarrow> ptr \<Rightarrow> ('a AVLTree \<times> ptr) option" where
  "AVL_RightRotate t this = do {
     q \<leftarrow> fld left t this;
     if q = None then Some (t, None)
     else do {
       qr \<leftarrow> fld right t q;
       t \<leftarrow> set_left t this qr;
       qr \<leftarrow> fld right t q;
       t \<leftarrow> (if qr \<noteq> None then set_parent t qr this else Some t);
       t \<leftarrow> set_right t q this;
       tp \<leftarrow> fld parent t this;
       t \<leftarrow> set_parent t q tp;
       t \<leftarrow> set_parent t this q;
       b \<leftarrow> fld balanceFactor t this;
       qb \<leftarrow> fld balanceFactor t q;
       let newBalanceThis = b + 1 - min qb 0;
       let newBalanceQ = qb + 1 + max newBalanceThis 0;
       t \<leftarrow> set_bal t this newBalanceThis;
       t \<leftarrow> set_bal t q newBalanceQ;
       Some (t, q) } }"

definition AVL_LeftRotate :: "'a AVLTree \<Rightarrow> ptr \<Rightarrow> ('a AVLTree \<times> ptr) option" where
  "AVL_LeftRotate t this = do {
     q \<leftarrow> fld right t this;
     if q = None then Some (t, None)
     else do {
       ql \<leftarrow> fld left t q;
       t \<leftarrow> set_right t this ql;
       ql \<leftarrow> fld left t q;
       t \<leftarrow> (if ql \<noteq> None then set_parent t ql this else Some t);
       t \<leftarrow> set_left t q this;
       tp \<leftarrow> fld parent t this;
       t \<leftarrow> set_parent t q tp;
       t \<leftarrow> set_parent t this q;
       b \<leftarrow> fld balanceFactor t this;
       qb \<leftarrow> fld balanceFactor t q;
       let newBalanceThis = b - 1 - max qb 0;
       let newBalanceQ = qb - 1 + min newBalanceThis 0;
       t \<leftarrow> set_bal t this newBalanceThis;
       t \<leftarrow> set_bal t q newBalanceQ;
       Some (t, q) } }"

definition DoubleRightRotate :: "'a AVLTree \<Rightarrow> ptr \<Rightarrow> ('a AVLTree \<times> ptr) option" where
  "DoubleRightRotate t this = do {
     l \<leftarrow> fld left t this;
     if l = None then Some (t, None)
     else do {
       (t, l') \<leftarrow> AVL_LeftRotate t l;
       t \<leftarrow> set_left t this l';
       AVL_RightRotate t this } }"

definition DoubleLeftRotate :: "'a AVLTree \<Rightarrow> ptr \<Rightarrow> ('a AVLTree \<times> ptr) option" where
  "DoubleLeftRotate t this = do {
     r \<leftarrow> fld right t this;
     if r = None then Some (t, None)
     else do {
       (t, r') \<leftarrow> AVL_RightRotate t r;
       t \<leftarrow> set_right t this r';
       AVL_LeftRotate t this } }"

definition Balance :: "'a AVLTree \<Rightarrow> ptr \<Rightarrow> ('a AVLTree \<times> ptr) option" where
  "Balance t this = do {
     b \<leftarrow> fld balanceFactor t this;
     if b = - 2 then do {
       w \<leftarrow> fld left t this;
       wb \<leftarrow> fld balanceFactor t w;
       if wb = 1 then DoubleRightRotate t this else AVL_RightRotate t this }
     else if b = 2 then do {
       w \<leftarrow> fld right t this;
       wb \<leftarrow> fld balanceFactor t w;
       if wb = - 1 then DoubleLeftRotate t this else AVL_LeftRotate t this }
     else Some (t, None) }"

subsection \<open>Insert\<close>

text \<open>
  The \<open>while (1)\<close> loop of \<open>AVLTree::Insert\<close>, which ends by linking \<open>node\<close> below
  \<open>current\<close> or by deleting it. Its result: the tree, \<open>balancePoint\<close>,
  \<open>balancePointPredecessor\<close> and \<open>balanceFactorUpdateHead\<close>.
\<close>

partial_function (option) AVL_Insert_loop ::
    "'a::linorder AVLTree \<Rightarrow> ptr \<Rightarrow> 'a \<Rightarrow> ptr \<Rightarrow> ptr \<Rightarrow> ptr \<Rightarrow> ptr \<Rightarrow> ptr
      \<Rightarrow> ('a AVLTree \<times> ptr \<times> ptr \<times> ptr) option" where
  "AVL_Insert_loop t node x current previous balancePoint balancePointPredecessor balanceFactorUpdateHead =
     (case rd t current of None \<Rightarrow> None
      | Some n \<Rightarrow>
          if x < item n then
            (let head = (if balanceFactor n > 0 then current else balanceFactorUpdateHead);
                 bp = (if balanceFactor n > 0 \<and> balancePoint \<noteq> None then current else balancePoint)
             in if left n = None then
                  (case Option.bind (set_left t current node) (\<lambda>t. set_parent t node current) of
                     None \<Rightarrow> None
                   | Some t' \<Rightarrow> Some (t', bp, balancePointPredecessor, head))
                else if balanceFactor n < 0 then
                  AVL_Insert_loop t node x (left n) current current previous head
                else if balanceFactor n > 0 then
                  AVL_Insert_loop t node x (left n) current None None head
                else AVL_Insert_loop t node x (left n) current bp balancePointPredecessor head)
          else if x > item n then
            (let head = (if balanceFactor n < 0 then current else balanceFactorUpdateHead);
                 bp = (if balanceFactor n < 0 \<and> balancePoint \<noteq> None then current else balancePoint)
             in if right n = None then
                  (case Option.bind (set_right t current node) (\<lambda>t. set_parent t node current) of
                     None \<Rightarrow> None
                   | Some t' \<Rightarrow> Some (t', bp, balancePointPredecessor, head))
                else if balanceFactor n > 0 then
                  AVL_Insert_loop t node x (right n) current current previous head
                else if balanceFactor n < 0 then
                  AVL_Insert_loop t node x (right n) current None None head
                else AVL_Insert_loop t node x (right n) current bp balancePointPredecessor head)
          else
            (case delete_node t node of None \<Rightarrow> None
             | Some t' \<Rightarrow> Some (t', None, balancePointPredecessor, None)))"

declare AVL_Insert_loop.simps [code]

text \<open>
  \<open>do { if (item < head->item) { head->balanceFactor--; head = head->left; }
        else { head->balanceFactor++; head = head->right; } } while (head != node);\<close>
\<close>

partial_function (option) update_factors :: "'a::linorder AVLTree \<Rightarrow> ptr \<Rightarrow> 'a \<Rightarrow> ptr \<Rightarrow> 'a AVLTree option" where
  "update_factors t node x balanceFactorUpdateHead =
     (case rd t balanceFactorUpdateHead of None \<Rightarrow> None
      | Some n \<Rightarrow>
          if x < item n then
            (case set_bal t balanceFactorUpdateHead (balanceFactor n - 1) of None \<Rightarrow> None
             | Some t' \<Rightarrow> if left n \<noteq> node then update_factors t' node x (left n) else Some t')
          else
            (case set_bal t balanceFactorUpdateHead (balanceFactor n + 1) of None \<Rightarrow> None
             | Some t' \<Rightarrow> if right n \<noteq> node then update_factors t' node x (right n) else Some t'))"

declare update_factors.simps [code]

text \<open>\<open>AVLTree::Insert\<close>; \<open>a\<close> is the address \<open>new Node(item)\<close> returns.\<close>

definition AVL_Insert :: "'a::linorder AVLTree \<Rightarrow> addr \<Rightarrow> 'a \<Rightarrow> 'a AVLTree option" where
  "AVL_Insert t a x = do {
     t \<leftarrow> new_node t a x 0;
     if root t = None then Some (t\<lparr>root := Some a\<rparr>)
     else do {
       (t, balancePoint, balancePointPredecessor, balanceFactorUpdateHead) \<leftarrow>
          AVL_Insert_loop t (Some a) x (root t) None None None (root t);
       let balanceFactorUpdateHead = (if balancePoint \<noteq> None then balancePoint else balanceFactorUpdateHead);
       t \<leftarrow> (if balanceFactorUpdateHead \<noteq> None then update_factors t (Some a) x balanceFactorUpdateHead
            else Some t);
       if balancePoint \<noteq> None then do {
         (t, substituteNode) \<leftarrow> Balance t balancePoint;
         t \<leftarrow> Some (if root t = balancePoint then t\<lparr>root := substituteNode\<rparr> else t);
         if balancePointPredecessor \<noteq> None then do {
           t \<leftarrow> set_parent t substituteNode balancePointPredecessor;
           l \<leftarrow> fld left t balancePointPredecessor;
           if l = balancePoint then set_left t balancePointPredecessor substituteNode
           else set_right t balancePointPredecessor substituteNode }
         else Some t }
       else Some t } }"

subsection \<open>Remove\<close>

text \<open>
  The loop that carries a decrease in height upwards; \<open>AVLTree::Remove\<close> contains five
  copies of it, which differ in the node \<open>predecessor\<close> starts from:
  \<open>do { if (predecessor->parent == nullptr) break;
        if (predecessor->parent->left == predecessor)
          { predecessor->parent->balanceFactor++; if (predecessor->parent->balanceFactor == 1) break; }
        else
          { predecessor->parent->balanceFactor--; if (predecessor->parent->balanceFactor == -1) break; }
        predecessor = predecessor->parent; } while (1);\<close>
\<close>

partial_function (option) shorten :: "'a AVLTree \<Rightarrow> ptr \<Rightarrow> 'a AVLTree option" where
  "shorten t predecessor =
     (case rd t predecessor of None \<Rightarrow> None
      | Some n \<Rightarrow>
          (case parent n of None \<Rightarrow> Some t
           | Some p \<Rightarrow> (case store t p of None \<Rightarrow> None
               | Some pn \<Rightarrow>
                   if left pn = predecessor then
                     (case set_bal t (parent n) (balanceFactor pn + 1) of None \<Rightarrow> None
                      | Some t' \<Rightarrow> if balanceFactor pn + 1 = 1 then Some t' else shorten t' (parent n))
                   else
                     (case set_bal t (parent n) (balanceFactor pn - 1) of None \<Rightarrow> None
                      | Some t' \<Rightarrow> if balanceFactor pn - 1 = - 1 then Some t' else shorten t' (parent n)))))"

declare shorten.simps [code]

text \<open>\<open>if (current->parent != nullptr && current->parent->balanceFactor == 0) { ... }\<close>\<close>

definition shorten_above :: "'a AVLTree \<Rightarrow> ptr \<Rightarrow> 'a AVLTree option" where
  "shorten_above t current = do {
     cp \<leftarrow> fld parent t current;
     if cp \<noteq> None then do {
       b \<leftarrow> fld balanceFactor t cp;
       if b = 0 then shorten t cp else Some t }
     else Some t }"

text \<open>\<open>p->balanceFactor++\<close> and \<open>p->balanceFactor--\<close>\<close>

definition add_bal :: "'a AVLTree \<Rightarrow> ptr \<Rightarrow> int \<Rightarrow> 'a AVLTree option" where
  "add_bal t p d = do { b \<leftarrow> fld balanceFactor t p; set_bal t p (b + d) }"

text \<open>
  The two one-child cases of \<open>AVLTree::Remove\<close> (\<open>child\<close> is the field \<open>left\<close> resp.
  \<open>right\<close> of \<open>current\<close>): the new tree and \<open>balancePoint\<close>.
\<close>

definition AVL_splice_child :: "'a AVLTree \<Rightarrow> ptr \<Rightarrow> (('a, int) node \<Rightarrow> ptr) \<Rightarrow> ('a AVLTree \<times> ptr) option" where
  "AVL_splice_child t current child = do {
     (t, balancePoint) \<leftarrow>
       (if current = root t then do {
          c \<leftarrow> fld child t current;
          t \<leftarrow> Some (t\<lparr>root := c\<rparr>);
          c \<leftarrow> fld child t current;
          t \<leftarrow> set_parent t c None;
          Some (t, None) }
        else do {
          cp \<leftarrow> fld parent t current;
          cpl \<leftarrow> fld left t cp;
          if cpl = current then do {
            c \<leftarrow> fld child t current;
            t \<leftarrow> set_left t cp c;
            balancePoint \<leftarrow> fld parent t current;
            t \<leftarrow> add_bal t balancePoint 1;
            c \<leftarrow> fld child t current;
            cp \<leftarrow> fld parent t current;
            t \<leftarrow> set_parent t c cp;
            Some (t, balancePoint) }
          else do {
            c \<leftarrow> fld child t current;
            t \<leftarrow> set_right t cp c;
            balancePoint \<leftarrow> fld parent t current;
            t \<leftarrow> add_bal t balancePoint (- 1);
            c \<leftarrow> fld child t current;
            cp \<leftarrow> fld parent t current;
            t \<leftarrow> set_parent t c cp;
            Some (t, balancePoint) } });
     t \<leftarrow> shorten_above t current;
     Some (t, balancePoint) }"

text \<open>
  \<open>while (replacement->left != nullptr)
     { if (replacement->balanceFactor >= 0) replacementIncludesBottomMost = false;
       replacement = replacement->left; }\<close>
\<close>

partial_function (option) find_replacement :: "'a AVLTree \<Rightarrow> ptr \<Rightarrow> bool \<Rightarrow> (ptr \<times> bool) option" where
  "find_replacement t replacement replacementIncludesBottomMost =
     (case rd t replacement of None \<Rightarrow> None
      | Some n \<Rightarrow>
          (case left n of None \<Rightarrow> Some (replacement, replacementIncludesBottomMost)
           | Some l \<Rightarrow> find_replacement t (left n)
                         (if balanceFactor n \<ge> 0 then False else replacementIncludesBottomMost)))"

declare find_replacement.simps [code]

text \<open>
  The structural part of \<open>AVLTree::Remove\<close> for the node \<open>current\<close> found by the descent
  (lines 491 to 715 of avltree.h): the new tree and \<open>balancePoint\<close>.
\<close>

definition AVL_unlink :: "'a AVLTree \<Rightarrow> ptr \<Rightarrow> ('a AVLTree \<times> ptr) option" where
  "AVL_unlink t current = do {
     cl \<leftarrow> fld left t current;
     cr \<leftarrow> fld right t current;
     if cl = None \<and> cr = None then do {
       (t, balancePoint) \<leftarrow>
         (if current = root t then Some (t\<lparr>root := None\<rparr>, None)
          else do {
            cp \<leftarrow> fld parent t current;
            cpl \<leftarrow> fld left t cp;
            if cpl = current then do {
              t \<leftarrow> add_bal t cp 1;
              cp' \<leftarrow> fld parent t current;
              t \<leftarrow> set_left t cp' None;
              Some (t, cp) }
            else do {
              t \<leftarrow> add_bal t cp (- 1);
              cp' \<leftarrow> fld parent t current;
              t \<leftarrow> set_right t cp' None;
              Some (t, cp) } });
       t \<leftarrow> shorten_above t current;
       Some (t, balancePoint) }
     else if cl \<noteq> None \<and> cr = None then AVL_splice_child t current left
     else if cl = None \<and> cr \<noteq> None then AVL_splice_child t current right
     else do {
       (replacement, replacementIncludesBottomMost) \<leftarrow> find_replacement t cr True;
       t \<leftarrow> (if replacementIncludesBottomMost then do {
            t \<leftarrow> add_bal t current (- 1);
            b \<leftarrow> fld balanceFactor t current;
            if b \<ge> 0 then shorten t current else Some t }
          else Some t);
       cl \<leftarrow> fld left t current;
       t \<leftarrow> set_left t replacement cl;
       cl \<leftarrow> fld left t current;
       t \<leftarrow> set_parent t cl replacement;
       b \<leftarrow> fld balanceFactor t current;
       t \<leftarrow> set_bal t replacement b;
       rp \<leftarrow> fld parent t replacement;
       (t, balancePoint) \<leftarrow> (if rp \<noteq> current then do {
            rr \<leftarrow> fld right t replacement;
            t \<leftarrow> set_left t rp rr;
            rp \<leftarrow> fld parent t replacement;
            t \<leftarrow> add_bal t rp 1;
            balancePoint \<leftarrow> fld parent t replacement;
            cr \<leftarrow> fld right t current;
            t \<leftarrow> set_right t replacement cr;
            cr \<leftarrow> fld right t current;
            t \<leftarrow> set_parent t cr replacement;
            Some (t, balancePoint) }
          else Some (t, replacement));
       t \<leftarrow> (if current = root t then do {
            t \<leftarrow> Some (t\<lparr>root := replacement\<rparr>);
            set_parent t replacement None }
          else do {
            cp \<leftarrow> fld parent t current;
            cpl \<leftarrow> fld left t cp;
            if cpl = current then do {
              t \<leftarrow> set_left t cp replacement;
              cp \<leftarrow> fld parent t current;
              set_parent t replacement cp }
            else do {
              t \<leftarrow> set_right t cp replacement;
              cp \<leftarrow> fld parent t current;
              set_parent t replacement cp } });
       Some (t, balancePoint) } }"

text \<open>
  One pass through the body of the loop \<open>while (balancePoint != nullptr)\<close> at the end of
  \<open>AVLTree::Remove\<close>, in the case that the factor of \<open>balancePoint\<close> is \<open>2\<close> or \<open>-2\<close>: the
  new tree and the new \<open>balancePoint\<close>.
\<close>

definition rebalance_step :: "'a AVLTree \<Rightarrow> ptr \<Rightarrow> ('a AVLTree \<times> ptr) option" where
  "rebalance_step t balancePoint = do {
     balancePointPredecessor \<leftarrow> fld parent t balancePoint;
     (t, substituteNode) \<leftarrow> Balance t balancePoint;
     t \<leftarrow> Some (if root t = balancePoint then t\<lparr>root := substituteNode\<rparr> else t);
     t \<leftarrow> (if balancePointPredecessor \<noteq> None then do {
          t \<leftarrow> set_parent t substituteNode balancePointPredecessor;
          l \<leftarrow> fld left t balancePointPredecessor;
          t \<leftarrow> (if l = balancePoint then do {
               t \<leftarrow> set_left t balancePointPredecessor substituteNode;
               add_bal t balancePointPredecessor 1 }
             else do {
               t \<leftarrow> set_right t balancePointPredecessor substituteNode;
               add_bal t balancePointPredecessor (- 1) });
          b \<leftarrow> fld balanceFactor t balancePointPredecessor;
          if b = 0 then shorten t balancePointPredecessor else Some t }
        else Some t);
     Some (t, balancePointPredecessor) }"

partial_function (option) rebalance_loop :: "'a AVLTree \<Rightarrow> ptr \<Rightarrow> 'a AVLTree option" where
  "rebalance_loop t balancePoint =
     (case balancePoint of None \<Rightarrow> Some t
      | Some a \<Rightarrow> (case store t a of None \<Rightarrow> None
          | Some n \<Rightarrow>
              if balanceFactor n = - 2 \<or> balanceFactor n = 2 then
                (case rebalance_step t balancePoint of None \<Rightarrow> None
                 | Some s \<Rightarrow> rebalance_loop (fst s) (snd s))
              else Some t))"

declare rebalance_loop.simps [code]

text \<open>
  \<open>AVLTree::Remove\<close>. The descent also assigns the local \<open>balanceUpdateHead\<close>, which
  nothing reads; the model leaves it out.
\<close>

definition AVL_Remove :: "'a::linorder AVLTree \<Rightarrow> 'a \<Rightarrow> 'a AVLTree option" where
  "AVL_Remove t x = do {
     current \<leftarrow> find_node t (root t) x;
     if current = None then Some t
     else do {
       (t, balancePoint) \<leftarrow> AVL_unlink t current;
       t \<leftarrow> delete_node t current;
       rebalance_loop t balancePoint } }"

subsection \<open>IsValid\<close>

text \<open>The first loop of \<open>CalculateHeight\<close>, and the same loop after a step to the right.\<close>

partial_function (option) height_descend :: "'a AVLTree \<Rightarrow> ptr \<Rightarrow> 32 word \<Rightarrow> (ptr \<times> 32 word) option" where
  "height_descend t current currentHeight =
     (case rd t current of None \<Rightarrow> None
      | Some n \<Rightarrow> (case left n of None \<Rightarrow> Some (current, currentHeight)
          | Some l \<Rightarrow> height_descend t (left n) (currentHeight + 1)))"

declare height_descend.simps [code]

text \<open>
  \<open>while (current->parent != nullptr && current->parent->right == current && current != this)
     { current = current->parent; currentHeight--; }\<close>
\<close>

partial_function (option) height_ascend :: "'a AVLTree \<Rightarrow> ptr \<Rightarrow> ptr \<Rightarrow> 32 word \<Rightarrow> (ptr \<times> 32 word) option" where
  "height_ascend t this current currentHeight =
     (case rd t current of None \<Rightarrow> None
      | Some n \<Rightarrow> (case parent n of None \<Rightarrow> Some (current, currentHeight)
          | Some p \<Rightarrow> (case store t p of None \<Rightarrow> None
              | Some pn \<Rightarrow>
                  if right pn = current \<and> current \<noteq> this
                  then height_ascend t this (parent n) (currentHeight - 1)
                  else Some (current, currentHeight))))"

declare height_ascend.simps [code]

text \<open>The main loop of \<open>CalculateHeight\<close>; \<open>stop\<close> is \<open>this->parent\<close>.\<close>

partial_function (option) height_loop :: "'a AVLTree \<Rightarrow> ptr \<Rightarrow> ptr \<Rightarrow> ptr \<Rightarrow> 32 word \<Rightarrow> 32 word \<Rightarrow> 32 word option" where
  "height_loop t this stop current currentHeight maxHeight =
     (if current = None \<or> current = stop then Some maxHeight
      else (case rd t current of None \<Rightarrow> None
        | Some n \<Rightarrow>
            (let maxHeight' = (if currentHeight > maxHeight then currentHeight else maxHeight)
             in if right n \<noteq> None then
                  (case height_descend t (right n) (currentHeight + 1) of None \<Rightarrow> None
                   | Some s \<Rightarrow> height_loop t this stop (fst s) (snd s) maxHeight')
                else
                  (case height_ascend t this current currentHeight of None \<Rightarrow> None
                   | Some s \<Rightarrow> (case rd t (fst s) of None \<Rightarrow> None
                       | Some m \<Rightarrow> height_loop t this stop (parent m) (snd s - 1) maxHeight')))))"

declare height_loop.simps [code]

definition CalculateHeight :: "'a AVLTree \<Rightarrow> ptr \<Rightarrow> 32 word option" where
  "CalculateHeight t this = do {
     stop \<leftarrow> fld parent t this;
     (current, currentHeight) \<leftarrow> height_descend t this 0;
     height_loop t this stop current currentHeight 0 }"

text \<open>\<open>p != nullptr ? (1 + p->CalculateHeight()) : 0\<close>\<close>

definition side_height :: "'a AVLTree \<Rightarrow> ptr \<Rightarrow> 32 word option" where
  "side_height t p = (if p \<noteq> None then do { h \<leftarrow> CalculateHeight t p; Some (1 + h) } else Some 0)"

text \<open>The body of the loop of \<open>AVLTree::IsValid\<close>: \<open>Some False\<close> where it returns false.\<close>

definition AVL_node_ok :: "'a AVLTree \<Rightarrow> ptr \<Rightarrow> bool option" where
  "AVL_node_ok t p = do {
     b \<leftarrow> fld balanceFactor t p;
     if b \<noteq> - 1 \<and> b \<noteq> 0 \<and> b \<noteq> 1 then Some False
     else do {
       l \<leftarrow> fld left t p;
       leftHeight \<leftarrow> side_height t l;
       r \<leftarrow> fld right t p;
       rightHeight \<leftarrow> side_height t r;
       let calculatedBalanceFactor = sint (rightHeight - leftHeight);
       b \<leftarrow> fld balanceFactor t p;
       Some (\<not> (b \<noteq> calculatedBalanceFactor)) } }"

partial_function (option) AVL_IsValid_loop :: "'a AVLTree \<Rightarrow> ptr \<Rightarrow> bool option" where
  "AVL_IsValid_loop t itr =
     (case itr of None \<Rightarrow> Some True
      | Some a \<Rightarrow> (case AVL_node_ok t itr of None \<Rightarrow> None
          | Some ok \<Rightarrow>
              if \<not> ok then Some False
              else (case incr t itr of None \<Rightarrow> None
                    | Some itr' \<Rightarrow> AVL_IsValid_loop t itr')))"

declare AVL_IsValid_loop.simps [code]

text \<open>\<open>AVLTree::IsValid\<close>\<close>

definition AVL_IsValid :: "'a AVLTree \<Rightarrow> bool option" where
  "AVL_IsValid t = do { itr \<leftarrow> begin_it t; AVL_IsValid_loop t itr }"

section \<open>Intersect (both trees)\<close>

text \<open>
  \<open>RBTree<T>::Intersect\<close> and \<open>AVLTree<T>::Intersect\<close> have the same body. \<open>Intersect_loop\<close>
  is its \<open>while (left != end() && right != other.end())\<close> loop, with the \<open>Insert\<close> of the
  tree class as a parameter. \<open>other\<close> is a container with a \<open>ConstIterator\<close>: a tree of
  either class, whose elements may have another type than those of \<open>this\<close>. Where the two
  element types are different arithmetic types, C++ converts both operands of
  \<open>*left == *right\<close> and of \<open>*left < *right\<close> to their common type before it compares them;
  \<open>cl\<close> and \<open>cr\<close> are these conversions, for the elements of \<open>this\<close> and of \<open>other\<close> (both are
  the identity where the element types are the same). \<open>intersectionTree\<close> is a tree of its
  own, empty at first, and \<open>a\<close> is the address that the next \<open>new Node\<close> returns. The
  iterators \<open>left\<close> and \<open>right\<close> of the source are \<open>left_it\<close> and \<open>right_it\<close> here.
  \<open>return intersectionTree\<close> hands the root over to the caller's tree (the move
  constructor takes the root and sets the root of the local tree to null), so the result
  is the tree that the loop has built.
\<close>

partial_function (option) Intersect_loop ::
    "('a \<Rightarrow> 'c::linorder) \<Rightarrow> ('b \<Rightarrow> 'c) \<Rightarrow> (('a, 'm) tree_obj \<Rightarrow> addr \<Rightarrow> 'a \<Rightarrow> ('a, 'm) tree_obj option)
      \<Rightarrow> ('a, 'm) tree_obj \<Rightarrow> ('b, 'k) tree_obj \<Rightarrow> ptr \<Rightarrow> ptr \<Rightarrow> ('a, 'm) tree_obj \<Rightarrow> addr
      \<Rightarrow> ('a, 'm) tree_obj option" where
  "Intersect_loop cl cr Insert t other left_it right_it intersectionTree a =
     do {
       e \<leftarrow> end_it t;
       oe \<leftarrow> end_it other;
       if left_it \<noteq> e \<and> right_it \<noteq> oe then do {
         l \<leftarrow> fld item t left_it;
         r \<leftarrow> fld item other right_it;
         if cl l = cr r then do {
           intersectionTree \<leftarrow> Insert intersectionTree a l;
           left_it \<leftarrow> incr t left_it;
           right_it \<leftarrow> incr other right_it;
           Intersect_loop cl cr Insert t other left_it right_it intersectionTree (a + 1) }
         else if cl l < cr r then do {
           left_it \<leftarrow> incr t left_it;
           Intersect_loop cl cr Insert t other left_it right_it intersectionTree a }
         else do {
           right_it \<leftarrow> incr other right_it;
           Intersect_loop cl cr Insert t other left_it right_it intersectionTree a } }
       else Some intersectionTree }"

declare Intersect_loop.simps [code]

definition RB_Intersect ::
    "('a::linorder \<Rightarrow> 'c::linorder) \<Rightarrow> ('b \<Rightarrow> 'c) \<Rightarrow> 'a RBTree \<Rightarrow> ('b, 'k) tree_obj \<Rightarrow> addr \<Rightarrow> 'a RBTree option" where
  "RB_Intersect cl cr t other a = do {
     left_it \<leftarrow> begin_it t;
     right_it \<leftarrow> begin_it other;
     Intersect_loop cl cr RB_Insert t other left_it right_it empty_tree a }"

definition AVL_Intersect ::
    "('a::linorder \<Rightarrow> 'c::linorder) \<Rightarrow> ('b \<Rightarrow> 'c) \<Rightarrow> 'a AVLTree \<Rightarrow> ('b, 'k) tree_obj \<Rightarrow> addr \<Rightarrow> 'a AVLTree option" where
  "AVL_Intersect cl cr t other a = do {
     left_it \<leftarrow> begin_it t;
     right_it \<leftarrow> begin_it other;
     Intersect_loop cl cr AVL_Insert t other left_it right_it empty_tree a }"

subsection \<open>The comparison of an int with a float\<close>

text \<open>
  Where C++ compares an \<open>int\<close> with a \<open>float\<close>, it converts the \<open>int\<close> to \<open>float\<close>. A \<open>float\<close>
  (IEEE 754 binary32) has a significand of 24 bits, so the conversion rounds an \<open>int\<close> of
  a magnitude above \<open>2 ^ 24\<close>: to the nearest \<open>float\<close>, and to the one with the even
  significand where two are equally near. A \<open>float\<close> is represented by the number it
  denotes, which is an integer for the values that occur here. \<open>float_ulp m\<close> is the
  distance between neighbouring \<open>float\<close> values at the magnitude \<open>m\<close> of a 32-bit \<open>int\<close>.
\<close>

definition float_ulp :: "int \<Rightarrow> int" where
  "float_ulp m = (if m < 2 ^ 24 then 1 else if m < 2 ^ 25 then 2 else if m < 2 ^ 26 then 4
     else if m < 2 ^ 27 then 8 else if m < 2 ^ 28 then 16 else if m < 2 ^ 29 then 32
     else if m < 2 ^ 30 then 64 else 128)"

definition int_to_float :: "int \<Rightarrow> int" where
  "int_to_float i =
     (let m = \<bar>i\<bar>; u = float_ulp m; q = m div u; r = m mod u;
          q' = (if u < 2 * r \<or> (2 * r = u \<and> odd q) then q + 1 else q)
      in sgn i * (q' * u))"

section \<open>Sequences of operations\<close>

text \<open>
  A caller's sequence of \<open>Insert\<close> and \<open>Remove\<close> calls on one tree. The \<open>k\<close>-th call of
  \<open>Insert\<close> gets the address \<open>a + k\<close> from the allocator.
\<close>

datatype 'a op = Ins 'a | Rem 'a

fun RB_run :: "'a::linorder RBTree \<Rightarrow> addr \<Rightarrow> 'a op list \<Rightarrow> 'a RBTree option" where
  "RB_run t a [] = Some t"
| "RB_run t a (Ins x # ops) = (case RB_Insert t a x of None \<Rightarrow> None | Some t' \<Rightarrow> RB_run t' (Suc a) ops)"
| "RB_run t a (Rem x # ops) = (case RB_Remove t x of None \<Rightarrow> None | Some t' \<Rightarrow> RB_run t' a ops)"


fun AVL_run :: "'a::linorder AVLTree \<Rightarrow> addr \<Rightarrow> 'a op list \<Rightarrow> 'a AVLTree option" where
  "AVL_run t a [] = Some t"
| "AVL_run t a (Ins x # ops) = (case AVL_Insert t a x of None \<Rightarrow> None | Some t' \<Rightarrow> AVL_run t' (Suc a) ops)"
| "AVL_run t a (Rem x # ops) = (case AVL_Remove t x of None \<Rightarrow> None | Some t' \<Rightarrow> AVL_run t' a ops)"


section \<open>Well-formed trees\<close>

text \<open>
  The shape of a tree in the store: a binary tree whose nodes carry an address and the
  item stored there. \<open>tree_at h par p s\<close> says that the pointer \<open>p\<close> leads to a tree of shape
  \<open>s\<close> in the store \<open>h\<close>: every node is live, holds its item, has its children where the
  shape has them, and its \<open>parent\<close> link leads to the node above it (\<open>par\<close> for the topmost
  node); no address occurs twice. The balance data are not constrained.
\<close>

fun rootp :: "(addr \<times> 'a) tree \<Rightarrow> ptr" where
  "rootp Leaf = None"
| "rootp (Node l ax r) = Some (fst ax)"

text \<open>The address of the leftmost node.\<close>

fun first_addr :: "(addr \<times> 'a) tree \<Rightarrow> ptr" where
  "first_addr Leaf = None"
| "first_addr (Node l ax r) = (if l = Leaf then Some (fst ax) else first_addr l)"

abbreviation addrs :: "(addr \<times> 'a) tree \<Rightarrow> addr set" where
  "addrs s \<equiv> fst ` set_tree s"

abbreviation items :: "(addr \<times> 'a) tree \<Rightarrow> 'a tree" where
  "items s \<equiv> map_tree snd s"

fun tree_at :: "(addr \<Rightarrow> ('a, 'm) node option) \<Rightarrow> ptr \<Rightarrow> ptr \<Rightarrow> (addr \<times> 'a) tree \<Rightarrow> bool" where
  "tree_at h par p Leaf = (p = None)"
| "tree_at h par p (Node l ax r) =
     (p = Some (fst ax) \<and> fst ax \<notin> addrs l \<and> fst ax \<notin> addrs r \<and> addrs l \<inter> addrs r = {} \<and>
      (case h (fst ax) of None \<Rightarrow> False
       | Some n \<Rightarrow> item n = snd ax \<and> parent n = par
                   \<and> tree_at h (Some (fst ax)) (left n) l \<and> tree_at h (Some (fst ax)) (right n) r))"

text \<open>The tree object \<open>t\<close> holds a well-formed tree of shape \<open>s\<close>.\<close>

definition is_tree :: "('a, 'm) tree_obj \<Rightarrow> (addr \<times> 'a) tree \<Rightarrow> bool" where
  "is_tree t s = tree_at (store t) None (root t) s"

text \<open>The tree object after the nodes at the addresses in \<open>A\<close> have been deleted.\<close>

definition deleted :: "addr set \<Rightarrow> ('a, 'm) tree_obj \<Rightarrow> ('a, 'm) tree_obj" where
  "deleted A t = t\<lparr>store := (\<lambda>a. if a \<in> A then None else store t a)\<rparr>"

text \<open>
  Auxiliary notions for the proofs about the iterators. \<open>succ_up\<close> is the else branch of
  the inorder \<open>operator++\<close>; \<open>visit_up\<close> is one pass of the postorder \<open>operator++\<close> in the
  upward phase; \<open>po_rest\<close> and \<open>clear_from\<close> are the postorder loops entered at \<open>++itr\<close>.
\<close>

definition succ_up :: "('a, 'm) tree_obj \<Rightarrow> ptr \<Rightarrow> ptr option" where
  "succ_up t p = (case ascend_right t p of None \<Rightarrow> None | Some c \<Rightarrow> fld parent t c)"

definition visit_up :: "('a, 'm) tree_obj \<Rightarrow> ptr \<Rightarrow> po_iter option" where
  "visit_up t p = (case rd t p of None \<Rightarrow> None
     | Some n \<Rightarrow> (case parent n of None \<Rightarrow> Some (p, None, True)
         | Some q \<Rightarrow> (case store t q of None \<Rightarrow> None
             | Some qn \<Rightarrow> Some (p, parent n, right qn \<noteq> p))))"

definition po_rest :: "('a, 'm) tree_obj \<Rightarrow> po_iter \<Rightarrow> 'a list option" where
  "po_rest t it = (case po_incr t it of None \<Rightarrow> None | Some it' \<Rightarrow> po_iterate t it')"

definition clear_from :: "('a, 'm) tree_obj \<Rightarrow> po_iter \<Rightarrow> ('a, 'm) tree_obj option" where
  "clear_from t it = (case po_incr t it of None \<Rightarrow> None | Some it' \<Rightarrow> Clear_loop t it')"

text \<open>
  Two small trees for the examples: the items 1, 2, 3 with 2 at the root, as both trees
  build them from \<open>Insert(2)\<close>, \<open>Insert(1)\<close>, \<open>Insert(3)\<close>.
\<close>

definition example_shape :: "(addr \<times> int) tree" where
  "example_shape = Node (Node Leaf (1, 1) Leaf) (0, 2) (Node Leaf (2, 3) Leaf)"

definition example_RB :: "int RBTree" where
  "example_RB = \<lparr>store = (\<lambda>a. None)
       (0 := Some \<lparr>item = 2, bal = Black, left = Some 1, right = Some 2, parent = None\<rparr>,
        1 := Some \<lparr>item = 1, bal = Red, left = None, right = None, parent = Some 0\<rparr>,
        2 := Some \<lparr>item = 3, bal = Red, left = None, right = None, parent = Some 0\<rparr>),
     root = Some 0\<rparr>"

definition example_AVL :: "int AVLTree" where
  "example_AVL = \<lparr>store = (\<lambda>a. None)
       (0 := Some \<lparr>item = 2, bal = 0, left = Some 1, right = Some 2, parent = None\<rparr>,
        1 := Some \<lparr>item = 1, bal = 0, left = None, right = None, parent = Some 0\<rparr>,
        2 := Some \<lparr>item = 3, bal = 0, left = None, right = None, parent = Some 0\<rparr>),
     root = Some 0\<rparr>"

subsection \<open>Notions for the proofs about Insert and Intersect\<close>

text \<open>
  \<open>Intersect\<close> inserts keys in ascending order, so every \<open>Insert\<close> it calls adds a key
  above all keys of the tree. Such a key is linked at the end of the path of right links
  from the root, and the rebalancing only touches that path. The notions below describe
  a tree along this path.
\<close>

text \<open>The links of a tree without the condition on the addresses.\<close>

fun links :: "(addr \<Rightarrow> ('a, 'm) node option) \<Rightarrow> ptr \<Rightarrow> ptr \<Rightarrow> (addr \<times> 'a) tree \<Rightarrow> bool" where
  "links h par p Leaf = (p = None)"
| "links h par p (Node l ax r) =
     (p = Some (fst ax) \<and>
      (case h (fst ax) of None \<Rightarrow> False
       | Some n \<Rightarrow> item n = snd ax \<and> parent n = par
                   \<and> links h (Some (fst ax)) (left n) l \<and> links h (Some (fst ax)) (right n) r))"

text \<open>Two nodes agree in everything but the balance datum.\<close>

definition same_links :: "('a, 'm) node \<Rightarrow> ('a, 'm) node \<Rightarrow> bool" where
  "same_links n n' = (item n' = item n \<and> left n' = left n \<and> right n' = right n \<and> parent n' = parent n)"

text \<open>A path of right links from the root: each entry is a node with its left subtree.\<close>

type_synonym 'a ctx = "((addr \<times> 'a) tree \<times> (addr \<times> 'a)) list"

fun plug :: "'a ctx \<Rightarrow> (addr \<times> 'a) tree \<Rightarrow> (addr \<times> 'a) tree" where
  "plug [] s = s"
| "plug (e # c) s = Node (fst e) (snd e) (plug c s)"

fun spine :: "(addr \<times> 'a) tree \<Rightarrow> 'a ctx" where
  "spine Leaf = []"
| "spine (Node l ax r) = (l, ax) # spine r"

definition ctx_last :: "'a ctx \<Rightarrow> ptr" where
  "ctx_last c = (if c = [] then None else Some (fst (snd (last c))))"

definition ctx_par :: "ptr \<Rightarrow> 'a ctx \<Rightarrow> ptr" where
  "ctx_par par c = (if c = [] then par else ctx_last c)"

text \<open>The tree object after node a has been linked below node m as its right child.\<close>

definition attached :: "('a, 'm) tree_obj \<Rightarrow> addr \<Rightarrow> addr \<Rightarrow> ('a, 'm) tree_obj" where
  "attached t m a = t\<lparr>store := (store t)
       (m := map_option (\<lambda>n. n\<lparr>right := Some a\<rparr>) (store t m),
        a := map_option (\<lambda>n. n\<lparr>parent := Some m\<rparr>) (store t a))\<rparr>"

text \<open>The tree object after the balance factors at the addresses in A have been incremented.\<close>

definition bumped :: "addr set \<Rightarrow> 'a AVLTree \<Rightarrow> 'a AVLTree" where
  "bumped A t = t\<lparr>store := (\<lambda>b. if b \<in> A then map_option (\<lambda>n. n\<lparr>bal := bal n + 1\<rparr>) (store t b)
                                  else store t b)\<rparr>"

abbreviation ctx_addrs :: "'a ctx \<Rightarrow> addr set" where
  "ctx_addrs c \<equiv> (\<lambda>e. fst (snd e)) ` set c"

text \<open>The balance factors on the right spine that insertions of ascending keys maintain.\<close>

definition spine_bal :: "'a AVLTree \<Rightarrow> (addr \<times> 'a) tree \<Rightarrow> bool" where
  "spine_bal t s = ((\<forall>e \<in> set (spine s). \<exists>n. store t (fst (snd e)) = Some n \<and> (bal n = 0 \<or> bal n = 1))
       \<and> (\<forall>m. ctx_last (spine s) = Some m \<longrightarrow> (\<exists>n. store t m = Some n \<and> bal n = 0)))"

text \<open>The iterator steps from p through the nodes xs, in this order, and arrives at q.\<close>

fun chain :: "('a, 'm) tree_obj \<Rightarrow> ptr \<Rightarrow> (addr \<times> 'a) list \<Rightarrow> ptr \<Rightarrow> bool" where
  "chain t p [] q = (p = q)"
| "chain t p (ax # xs) q =
     (p = Some (fst ax) \<and>
      (case store t (fst ax) of None \<Rightarrow> False
       | Some n \<Rightarrow> item n = snd ax \<and>
           (case incr t p of None \<Rightarrow> False | Some p' \<Rightarrow> chain t p' xs q)))"

text \<open>The merge of two ascending sequences that the loop of Intersect performs.\<close>

fun isect :: "('a \<Rightarrow> 'c::linorder) \<Rightarrow> ('b \<Rightarrow> 'c) \<Rightarrow> 'a list \<Rightarrow> 'b list \<Rightarrow> 'a list" where
  "isect cl cr [] ys = []"
| "isect cl cr (x # xs) [] = []"
| "isect cl cr (x # xs) (y # ys) =
     (if cl x = cr y then x # isect cl cr xs ys
      else if cl x < cr y then isect cl cr xs (y # ys)
      else isect cl cr (x # xs) ys)"

text \<open>A second example: an AVL tree that holds 2, 3 and 5.\<close>

definition example_other :: "int AVLTree" where
  "example_other = \<lparr>store = (\<lambda>a. None)
       (0 := Some \<lparr>item = 3, bal = 0, left = Some 1, right = Some 2, parent = None\<rparr>,
        1 := Some \<lparr>item = 2, bal = 0, left = None, right = None, parent = Some 0\<rparr>,
        2 := Some \<lparr>item = 5, bal = 0, left = None, right = None, parent = Some 0\<rparr>),
     root = Some 0\<rparr>"

section \<open>Theorems\<close>

subsection \<open>Well-formed trees and the iterators\<close>

lemma tree_at_rootp: "tree_at h par p s \<Longrightarrow> p = rootp s"
  by (cases s) auto

lemma tree_at_live: "tree_at h par p s \<Longrightarrow> a \<in> addrs s \<Longrightarrow> h a \<noteq> None"
proof (induction s arbitrary: par p)
  case Leaf
  then show ?case by simp
next
  case (Node l ax r)
  from Node.prems(1) obtain n where n: "h (fst ax) = Some n"
    and l: "tree_at h (Some (fst ax)) (left n) l" and r: "tree_at h (Some (fst ax)) (right n) r"
    by (auto split: option.splits)
  from Node.prems(2) consider "a = fst ax" | "a \<in> addrs l" | "a \<in> addrs r" by auto
  then show ?case
  proof cases
    case 1 then show ?thesis using n by simp
  next
    case 2 then show ?thesis using Node.IH(1) [OF l] by simp
  next
    case 3 then show ?thesis using Node.IH(2) [OF r] by simp
  qed
qed

lemma tree_at_frame:
  "tree_at h par p s \<Longrightarrow> (\<And>a. a \<in> addrs s \<Longrightarrow> h' a = h a) \<Longrightarrow> tree_at h' par p s"
proof (induction s arbitrary: par p)
  case Leaf
  then show ?case by simp
next
  case (Node l ax r)
  from Node.prems(1) obtain n where n: "h (fst ax) = Some n"
    by (auto split: option.splits)
  have same: "h' (fst ax) = Some n" using Node.prems(2) [of "fst ax"] n by simp
  have l: "tree_at h' (Some (fst ax)) (left n) l"
    using Node.prems n by (intro Node.IH(1)) auto
  have r: "tree_at h' (Some (fst ax)) (right n) r"
    using Node.prems n by (intro Node.IH(2)) auto
  show ?case using Node.prems(1) n same l r by simp
qed

lemma first_addr_in: "s \<noteq> Leaf \<Longrightarrow> \<exists>a. first_addr s = Some a \<and> a \<in> addrs s"
  by (induction s) auto

lemma descend_left_tree:
  "tree_at (store t) par p s \<Longrightarrow> s \<noteq> Leaf \<Longrightarrow> descend_left t p = Some (first_addr s)"
proof (induction s arbitrary: par p)
  case Leaf
  then show ?case by simp
next
  case (Node l ax r)
  from Node.prems(1) obtain n where n: "store t (fst ax) = Some n" and p: "p = Some (fst ax)"
    and l: "tree_at (store t) (Some (fst ax)) (left n) l"
    by (auto split: option.splits)
  show ?case
  proof (cases l)
    case Leaf
    with l have "left n = None" by simp
    with n p Leaf show ?thesis by (subst descend_left.simps) (simp add: rd_def)
  next
    case (Node l1 bx l2)
    with l have ln: "left n = Some (fst bx)" by simp
    have "descend_left t (left n) = Some (first_addr l)"
      using Node.IH(1) [OF l] Node by simp
    with n p ln Node show ?thesis by (subst descend_left.simps) (simp add: rd_def)
  qed
qed

lemma succ_up_left_child:
  assumes "store t a = Some n" "left n = Some b" "right n \<noteq> Some b"
    and "store t b = Some m" "parent m = Some a"
  shows "succ_up t (Some b) = Some (Some a)"
  using assms unfolding succ_up_def
  by (subst ascend_right.simps) (simp add: rd_def fld_def)

lemma succ_up_right_child:
  assumes "store t a = Some n" "right n = Some b" "store t b = Some m" "parent m = Some a"
  shows "succ_up t (Some b) = succ_up t (Some a)"
  using assms unfolding succ_up_def
  by (subst ascend_right.simps) (simp add: rd_def fld_def)

lemma tree_at_root_node:
  "tree_at h par (Some a) s \<Longrightarrow> \<exists>n. h a = Some n \<and> parent n = par"
  by (cases s) (auto split: option.splits)

lemma iterate_tree:
  "tree_at (store t) par p s \<Longrightarrow> s \<noteq> Leaf \<Longrightarrow> succ_up t p = Some q \<Longrightarrow>
   iterate t (first_addr s) = Option.bind (iterate t q) (\<lambda>xs. Some (map snd (inorder s) @ xs))"
proof (induction s arbitrary: par p q)
  case Leaf
  then show ?case by simp
next
  case (Node l ax r)
  obtain a x where ax: "ax = (a, x)" by (cases ax)
  from Node.prems(1) ax obtain n where n: "store t a = Some n" and p: "p = Some a"
    and item: "item n = x" and par: "parent n = par"
    and l: "tree_at (store t) (Some a) (left n) l"
    and r: "tree_at (store t) (Some a) (right n) r"
    and disj: "a \<notin> addrs l" "a \<notin> addrs r" "addrs l \<inter> addrs r = {}"
    by (auto split: option.splits)
  have ln: "left n = rootp l" and rn: "right n = rootp r"
    using l r tree_at_rootp by blast+
  \<comment> \<open>from the node a onwards\<close>
  have from_a: "iterate t (Some a) = Option.bind (iterate t q) (\<lambda>xs. Some (x # map snd (inorder r) @ xs))"
  proof (cases "r = Leaf")
    case True
    then have "right n = None" using rn by simp
    then have "incr t (Some a) = Some q"
      using n Node.prems(3) p by (simp add: incr_def rd_def succ_up_def)
    then show ?thesis using n item True
      by (subst iterate.simps) simp
  next
    case False
    then obtain b where b: "rootp r = Some b" by (cases r) auto
    obtain m where m: "store t b = Some m" "parent m = Some a"
      using tree_at_root_node r rn b by fastforce
    have "succ_up t (Some b) = succ_up t (Some a)"
      using succ_up_right_child n rn b m by metis
    then have q': "succ_up t (right n) = Some q" using Node.prems(3) p rn b by simp
    have ih: "iterate t (first_addr r) = Option.bind (iterate t q) (\<lambda>xs. Some (map snd (inorder r) @ xs))"
      using Node.IH(2) [OF r False q'] .
    have "incr t (Some a) = Some (first_addr r)"
      using n rn b descend_left_tree [OF r False] by (simp add: incr_def rd_def)
    then show ?thesis using n item ih
      by (subst iterate.simps) (simp add: bind_assoc)
  qed
  show ?case
  proof (cases "l = Leaf")
    case True
    then show ?thesis using from_a ax by simp
  next
    case False
    then obtain b where b: "rootp l = Some b" by (cases l) auto
    obtain m where m: "store t b = Some m" "parent m = Some a"
      using tree_at_root_node l ln b by fastforce
    have "b \<in> addrs l" using b by (cases l) auto
    then have "right n \<noteq> Some b"
      using rn disj by (cases r) auto
    then have "succ_up t (left n) = Some (Some a)"
      using succ_up_left_child n ln b m by metis
    from Node.IH(1) [OF l False this]
    have "iterate t (first_addr l) = Option.bind (iterate t (Some a)) (\<lambda>xs. Some (map snd (inorder l) @ xs))" .
    then show ?thesis using from_a ax False by (simp add: bind_assoc)
  qed
qed

lemma inorder_items_tree:
  assumes "is_tree t s"
  shows "inorder_items t = Some (map snd (inorder s))"
proof (cases "s = Leaf")
  case True
  then have "root t = None" using assms by (simp add: is_tree_def)
  then show ?thesis using True
    by (simp add: inorder_items_def begin_it_def ConstIterator_def iterate.simps)
next
  case False
  then obtain a where a: "rootp s = Some a" by (cases s) auto
  have rt: "root t = Some a" using assms tree_at_rootp a unfolding is_tree_def by fastforce
  obtain n where n: "store t a = Some n" "parent n = None"
    using tree_at_root_node assms rt unfolding is_tree_def by fastforce
  have "succ_up t (root t) = Some None"
    using n rt unfolding succ_up_def by (subst ascend_right.simps) (simp add: rd_def fld_def)
  from iterate_tree [OF assms [unfolded is_tree_def] False this]
  have "iterate t (first_addr s) = Some (map snd (inorder s))"
    by (simp add: iterate.simps)
  moreover have "begin_it t = Some (first_addr s)"
    using descend_left_tree [OF assms [unfolded is_tree_def] False] rt
    by (simp add: begin_it_def ConstIterator_def)
  ultimately show ?thesis by (simp add: inorder_items_def)
qed

lemma po_while_up: "po_while t c (Some a) False = visit_up t (Some a)"
  by (subst po_while.simps) (auto simp: visit_up_def rd_def split: option.splits)

lemma po_incr_up: "po_incr t (c, Some a, False) = visit_up t (Some a)"
  by (simp add: po_incr_def po_while_up)

lemma po_incr_down_leaf:
  "store t a = Some n \<Longrightarrow> right n = None \<Longrightarrow> po_incr t (c, Some a, True) = visit_up t (Some a)"
  by (simp add: po_incr_def, subst po_while.simps, simp add: po_while_up)

lemma po_incr_down_right:
  "store t a = Some n \<Longrightarrow> right n \<noteq> None \<Longrightarrow> descend_left t (right n) = Some (Some d) \<Longrightarrow>
   po_incr t (c, Some a, True) = po_incr t (c, Some d, True)"
  by (simp add: po_incr_def, subst po_while.simps, simp)

lemma po_iterate_visit:
  "store t a = Some n \<Longrightarrow>
   po_iterate t (Some a, q, ph) = Option.bind (po_rest t (Some a, q, ph)) (\<lambda>xs. Some (item n # xs))"
  by (subst po_iterate.simps) (simp add: po_end_def rd_def po_rest_def split: option.splits)

lemma visit_up_left_child:
  assumes "store t a = Some n" "right n \<noteq> Some b" "store t b = Some m" "parent m = Some a"
  shows "visit_up t (Some b) = Some (Some b, Some a, True)"
  using assms by (simp add: visit_up_def rd_def)

lemma visit_up_right_child:
  assumes "store t a = Some n" "right n = Some b" "store t b = Some m" "parent m = Some a"
  shows "visit_up t (Some b) = Some (Some b, Some a, False)"
  using assms by (simp add: visit_up_def rd_def)

lemma po_rest_tree:
  "tree_at (store t) par p s \<Longrightarrow> s \<noteq> Leaf \<Longrightarrow> visit_up t p = Some it1 \<Longrightarrow>
   po_rest t (c, first_addr s, True)
     = Option.bind (po_rest t it1) (\<lambda>xs. Some (map snd (postorder s) @ xs))"
proof (induction s arbitrary: par p it1 c)
  case Leaf
  then show ?case by simp
next
  case (Node l ax r)
  obtain a x where ax: "ax = (a, x)" by (cases ax)
  from Node.prems(1) ax obtain n where n: "store t a = Some n" and p: "p = Some a"
    and item: "item n = x" and par: "parent n = par"
    and l: "tree_at (store t) (Some a) (left n) l"
    and r: "tree_at (store t) (Some a) (right n) r"
    and disj: "a \<notin> addrs l" "a \<notin> addrs r" "addrs l \<inter> addrs r = {}"
    by (auto split: option.splits)
  have ln: "left n = rootp l" and rn: "right n = rootp r"
    using l r tree_at_rootp by blast+
  have it1: "\<exists>q ph. it1 = (Some a, q, ph)"
    using Node.prems(3) p by (auto simp: visit_up_def rd_def split: option.splits)
  have visit: "po_iterate t it1 = Option.bind (po_rest t it1) (\<lambda>xs. Some (x # xs))"
    using it1 po_iterate_visit [OF n] item by auto
  \<comment> \<open>from the node a in the downward phase\<close>
  have from_a: "po_rest t (c', Some a, True)
      = Option.bind (po_rest t it1) (\<lambda>xs. Some (map snd (postorder r) @ x # xs))" for c'
  proof (cases "r = Leaf")
    case True
    then have "right n = None" using rn by simp
    then have "po_incr t (c', Some a, True) = Some it1"
      using po_incr_down_leaf [OF n] Node.prems(3) p by simp
    then show ?thesis using visit True by (simp add: po_rest_def)
  next
    case False
    then obtain b where b: "rootp r = Some b" by (cases r) auto
    obtain m where m: "store t b = Some m" "parent m = Some a"
      using tree_at_root_node r rn b by fastforce
    have vb: "visit_up t (right n) = Some (Some b, Some a, False)"
      using visit_up_right_child n rn b m by metis
    obtain d where d: "first_addr r = Some d" using first_addr_in [OF False] by auto
    have "po_incr t (c', Some a, True) = po_incr t (c', Some d, True)"
      using po_incr_down_right [OF n] rn b descend_left_tree [OF r False] d by simp
    then have "po_rest t (c', Some a, True) = po_rest t (c', first_addr r, True)"
      using d by (simp add: po_rest_def)
    also have "\<dots> = Option.bind (po_rest t (Some b, Some a, False)) (\<lambda>xs. Some (map snd (postorder r) @ xs))"
      using Node.IH(2) [OF r False vb] .
    also have "po_rest t (Some b, Some a, False) = po_iterate t it1"
      using Node.prems(3) p by (simp add: po_rest_def po_incr_up)
    finally show ?thesis using visit by (simp add: bind_assoc)
  qed
  show ?case
  proof (cases "l = Leaf")
    case True
    then show ?thesis using from_a ax by simp
  next
    case False
    then obtain b where b: "rootp l = Some b" by (cases l) auto
    obtain m where m: "store t b = Some m" "parent m = Some a"
      using tree_at_root_node l ln b by fastforce
    have "b \<in> addrs l" using b by (cases l) auto
    then have "right n \<noteq> Some b"
      using rn disj by (cases r) auto
    then have vb: "visit_up t (left n) = Some (Some b, Some a, True)"
      using visit_up_left_child n ln b m by metis
    from Node.IH(1) [OF l False vb]
    have "po_rest t (c, first_addr l, True)
        = Option.bind (po_rest t (Some b, Some a, True)) (\<lambda>xs. Some (map snd (postorder l) @ xs))" .
    then show ?thesis using from_a ax False by (simp add: bind_assoc)
  qed
qed

lemma postorder_items_tree:
  assumes "is_tree t s"
  shows "postorder_items t = Some (map snd (postorder s))"
proof (cases "s = Leaf")
  case True
  then have "root t = None" using assms by (simp add: is_tree_def)
  then show ?thesis using True
    by (simp add: postorder_items_def po_begin_def po_Iterator_def po_iterate.simps po_end_def)
next
  case False
  then obtain a where a: "rootp s = Some a" by (cases s) auto
  have rt: "root t = Some a" using assms tree_at_rootp a unfolding is_tree_def by fastforce
  obtain n where n: "store t a = Some n" "parent n = None"
    using tree_at_root_node assms rt unfolding is_tree_def by fastforce
  have v: "visit_up t (root t) = Some (Some a, None, True)"
    using n rt by (simp add: visit_up_def rd_def)
  have "po_rest t (Some a, None, True) = Some []"
    by (simp add: po_rest_def po_incr_def po_while.simps po_iterate.simps po_end_def)
  with po_rest_tree [OF assms [unfolded is_tree_def] False v, of None]
  have "po_rest t (None, first_addr s, True) = Some (map snd (postorder s))"
    by simp
  moreover have "po_begin t = po_incr t (None, first_addr s, True)"
    using descend_left_tree [OF assms [unfolded is_tree_def] False] rt
    by (simp add: po_begin_def po_Iterator_def)
  ultimately show ?thesis by (simp add: postorder_items_def po_rest_def split: option.splits)
qed

lemma store_deleted [simp]: "store (deleted A t) a = (if a \<in> A then None else store t a)"
  by (simp add: deleted_def)

lemma root_deleted [simp]: "root (deleted A t) = root t"
  by (simp add: deleted_def)

lemma deleted_deleted: "deleted A (deleted B t) = deleted (A \<union> B) t"
  by (auto simp: deleted_def fun_eq_iff)

lemma deleted_empty [simp]: "deleted {} t = t"
  by (simp add: deleted_def)

lemma delete_node_deleted:
  "store t a = Some n \<Longrightarrow> delete_node t (Some a) = Some (deleted {a} t)"
  by (auto simp: delete_node_def deleted_def fun_eq_iff intro!: arg_cong [where f = "\<lambda>s. t\<lparr>store := s\<rparr>"])

lemma tree_at_deleted:
  "tree_at (store t) par p s \<Longrightarrow> A \<inter> addrs s = {} \<Longrightarrow> tree_at (store (deleted A t)) par p s"
  by (erule tree_at_frame) auto

lemma Clear_loop_visit:
  "store t a = Some n \<Longrightarrow> Clear_loop t (Some a, q, ph) = clear_from (deleted {a} t) (Some a, q, ph)"
  by (subst Clear_loop.simps) (simp add: po_end_def delete_node_deleted clear_from_def)

lemma visit_up_deleted:
  "visit_up t (Some a) = Some it1 \<Longrightarrow> store t a = Some n \<Longrightarrow> a \<notin> A \<Longrightarrow>
   (\<And>q. parent n = Some q \<Longrightarrow> q \<notin> A) \<Longrightarrow> visit_up (deleted A t) (Some a) = Some it1"
  by (auto simp: visit_up_def rd_def split: option.splits)

lemma clear_from_tree:
  "tree_at (store t) par p s \<Longrightarrow> s \<noteq> Leaf \<Longrightarrow> visit_up t p = Some it1 \<Longrightarrow>
   (\<And>q. par = Some q \<Longrightarrow> q \<notin> addrs s) \<Longrightarrow>
   clear_from t (c, first_addr s, True) = clear_from (deleted (addrs s) t) it1"
proof (induction s arbitrary: t par p it1 c)
  case Leaf
  then show ?case by simp
next
  case (Node l ax r)
  obtain a x where ax: "ax = (a, x)" by (cases ax)
  from Node.prems(1) ax obtain n where n: "store t a = Some n" and p: "p = Some a"
    and par: "parent n = par"
    and l: "tree_at (store t) (Some a) (left n) l"
    and r: "tree_at (store t) (Some a) (right n) r"
    and disj: "a \<notin> addrs l" "a \<notin> addrs r" "addrs l \<inter> addrs r = {}"
    by (auto split: option.splits)
  have ln: "left n = rootp l" and rn: "right n = rootp r"
    using l r tree_at_rootp by blast+
  have parq: "\<And>q. parent n = Some q \<Longrightarrow> q \<notin> addrs l \<and> q \<notin> addrs r \<and> q \<noteq> a"
    using Node.prems(4) par ax by auto
  have va: "visit_up t (Some a) = Some it1" using Node.prems(3) p by simp
  obtain q1 ph1 where it1: "it1 = (Some a, q1, ph1)"
    using va by (auto simp: visit_up_def rd_def split: option.splits)
  \<comment> \<open>from the node a in the downward phase, in a tree t' that still holds a and r\<close>
  have from_a: "clear_from (deleted A t) (c', Some a, True) = clear_from (deleted (insert a (addrs r \<union> A)) t) it1"
    if A: "a \<notin> A" "A \<inter> addrs r = {}" "\<And>q. parent n = Some q \<Longrightarrow> q \<notin> A" for c' A
  proof -
    let ?t = "deleted A t"
    have n': "store ?t a = Some n" using n A by simp
    have r': "tree_at (store ?t) (Some a) (right n) r" using tree_at_deleted [OF r] A by blast
    show ?thesis
    proof (cases "r = Leaf")
      case True
      then have "right n = None" using rn by simp
      moreover have "visit_up ?t (Some a) = Some it1"
        by (rule visit_up_deleted [OF va n]) (use A in simp_all)
      ultimately have "po_incr ?t (c', Some a, True) = Some it1"
        using po_incr_down_leaf [OF n'] by simp
      then have "clear_from ?t (c', Some a, True) = Clear_loop ?t it1"
        by (simp add: clear_from_def)
      also have "\<dots> = clear_from (deleted {a} ?t) it1"
        unfolding it1 by (rule Clear_loop_visit [OF n'])
      finally show ?thesis using True by (simp add: deleted_deleted)
    next
      case False
      then obtain b where b: "rootp r = Some b" by (cases r) auto
      have bin: "b \<in> addrs r" using b by (cases r) auto
      obtain m where m: "store ?t b = Some m" "parent m = Some a"
        using tree_at_root_node r' rn b by fastforce
      have vb: "visit_up ?t (right n) = Some (Some b, Some a, False)"
        using visit_up_right_child n' rn b m by metis
      obtain d where d: "first_addr r = Some d" using first_addr_in [OF False] by auto
      have "po_incr ?t (c', Some a, True) = po_incr ?t (c', Some d, True)"
        using po_incr_down_right [OF n'] rn b descend_left_tree [OF r' False] d by simp
      then have "clear_from ?t (c', Some a, True) = clear_from ?t (c', first_addr r, True)"
        using d by (simp add: clear_from_def)
      also have "\<dots> = clear_from (deleted (addrs r) ?t) (Some b, Some a, False)"
        using Node.IH(2) [OF r' False vb] disj by simp
      also have "\<dots> = Clear_loop (deleted (addrs r) ?t) it1"
      proof -
        have "visit_up (deleted (addrs r \<union> A) t) (Some a) = Some it1"
          by (rule visit_up_deleted [OF va n]) (use A disj parq in auto)
        then show ?thesis by (simp add: clear_from_def po_incr_up deleted_deleted)
      qed
      also have "\<dots> = clear_from (deleted {a} (deleted (addrs r) ?t)) it1"
      proof -
        have "store (deleted (addrs r) ?t) a = Some n" using n A disj by simp
        from Clear_loop_visit [OF this] show ?thesis unfolding it1 .
      qed
      finally show ?thesis by (simp add: deleted_deleted)
    qed
  qed
  show ?case
  proof (cases "l = Leaf")
    case True
    have "clear_from (deleted {} t) (c, Some a, True) = clear_from (deleted (insert a (addrs r \<union> {})) t) it1"
      by (rule from_a) auto
    then show ?thesis using ax True by simp
  next
    case False
    then obtain b where b: "rootp l = Some b" by (cases l) auto
    obtain m where m: "store t b = Some m" "parent m = Some a"
      using tree_at_root_node l ln b by fastforce
    have "b \<in> addrs l" using b by (cases l) auto
    then have "right n \<noteq> Some b"
      using rn disj by (cases r) auto
    then have vb: "visit_up t (left n) = Some (Some b, Some a, True)"
      using visit_up_left_child n ln b m by metis
    have "clear_from t (c, first_addr l, True) = clear_from (deleted (addrs l) t) (Some b, Some a, True)"
      using Node.IH(1) [OF l False vb] disj by simp
    also have "\<dots> = clear_from (deleted (insert a (addrs r \<union> addrs l)) t) it1"
      using disj parq by (intro from_a) auto
    also have "insert a (addrs r \<union> addrs l) = addrs (Node l ax r)"
      using ax by auto
    finally show ?thesis using False by simp
  qed
qed

lemma Clear_tree:
  assumes "is_tree t s"
  shows "Clear t = Some (deleted (addrs s) t\<lparr>root := None\<rparr>)"
proof (cases "s = Leaf")
  case True
  then have "root t = None" using assms by (simp add: is_tree_def)
  then show ?thesis using True
    by (simp add: Clear_def po_begin_def po_Iterator_def Clear_loop.simps po_end_def)
next
  case False
  then obtain a where a: "rootp s = Some a" by (cases s) auto
  have rt: "root t = Some a" using assms tree_at_rootp a unfolding is_tree_def by fastforce
  obtain n where n: "store t a = Some n" "parent n = None"
    using tree_at_root_node assms rt unfolding is_tree_def by fastforce
  have v: "visit_up t (root t) = Some (Some a, None, True)"
    using n rt by (simp add: visit_up_def rd_def)
  have "clear_from t' (Some a, None, True) = Some t'" for t' :: "('a, 'b) tree_obj"
    by (simp add: clear_from_def po_incr_def po_while.simps Clear_loop.simps po_end_def)
  with clear_from_tree [OF assms [unfolded is_tree_def] False v, of None]
  have "clear_from t (None, first_addr s, True) = Some (deleted (addrs s) t)"
    by simp
  moreover have "po_begin t = po_incr t (None, first_addr s, True)"
    using descend_left_tree [OF assms [unfolded is_tree_def] False] rt
    by (simp add: po_begin_def po_Iterator_def)
  ultimately show ?thesis by (auto simp: Clear_def clear_from_def split: option.splits)
qed

lemma find_node_absent:
  "tree_at (store t) par p s \<Longrightarrow> x \<notin> set_tree (items s) \<Longrightarrow> find_node t p x = Some None"
proof (induction s arbitrary: par p)
  case Leaf
  then show ?case by (simp add: find_node.simps)
next
  case (Node l ax r)
  from Node.prems(1) obtain n where n: "store t (fst ax) = Some n" and p: "p = Some (fst ax)"
    and item: "item n = snd ax"
    and l: "tree_at (store t) (Some (fst ax)) (left n) l"
    and r: "tree_at (store t) (Some (fst ax)) (right n) r"
    by (auto split: option.splits)
  have "find_node t (left n) x = Some None" "find_node t (right n) x = Some None"
    using Node.IH(1) [OF l] Node.IH(2) [OF r] Node.prems(2) by auto
  moreover have "item n \<noteq> x" using Node.prems(2) item by auto
  ultimately show ?case using n p by (subst find_node.simps) simp
qed

lemma RB_Remove_absent:
  "is_tree t s \<Longrightarrow> x \<notin> set_tree (items s) \<Longrightarrow> RB_Remove t x = Some t"
  by (simp add: RB_Remove_def is_tree_def find_node_absent)

lemma AVL_Remove_absent:
  "is_tree t s \<Longrightarrow> x \<notin> set_tree (items s) \<Longrightarrow> AVL_Remove t x = Some t"
  by (simp add: AVL_Remove_def is_tree_def find_node_absent)

lemma RB_Insert_loop_present:
  "tree_at (store t) par p s \<Longrightarrow> bst (items s) \<Longrightarrow> x \<in> set_tree (items s) \<Longrightarrow>
   RB_Insert_loop t p previous x = Some Duplicate"
proof (induction s arbitrary: par p previous)
  case Leaf
  then show ?case by simp
next
  case (Node l ax r)
  from Node.prems(1) obtain n where n: "store t (fst ax) = Some n" and p: "p = Some (fst ax)"
    and item: "item n = snd ax"
    and l: "tree_at (store t) (Some (fst ax)) (left n) l"
    and r: "tree_at (store t) (Some (fst ax)) (right n) r"
    by (auto split: option.splits)
  consider "x < item n" | "x = item n" | "x > item n" by fastforce
  then show ?case
  proof cases
    case 1
    then have "x \<in> set_tree (items l)" using Node.prems(2,3) item by fastforce
    then have "RB_Insert_loop t (left n) p x = Some Duplicate"
      using Node.IH(1) [OF l] Node.prems(2) by simp
    then show ?thesis using n p 1 by (subst RB_Insert_loop.simps) simp
  next
    case 2
    then show ?thesis using n p by (subst RB_Insert_loop.simps) simp
  next
    case 3
    then have "x \<in> set_tree (items r)" using Node.prems(2,3) item by fastforce
    then have "RB_Insert_loop t (right n) p x = Some Duplicate"
      using Node.IH(2) [OF r] Node.prems(2) by simp
    moreover have "\<not> x < item n" using 3 by simp
    ultimately show ?thesis using n p 3 by (subst RB_Insert_loop.simps) simp
  qed
qed

lemma AVL_Insert_loop_present:
  "tree_at (store t) par p s \<Longrightarrow> bst (items s) \<Longrightarrow> x \<in> set_tree (items s) \<Longrightarrow>
   \<exists>bpp'. AVL_Insert_loop t node x p previous bp bpp head
      = Option.bind (delete_node t node) (\<lambda>t'. Some (t', None, bpp', None))"
proof (induction s arbitrary: par p previous bp bpp head)
  case Leaf
  then show ?case by simp
next
  case (Node l ax r)
  from Node.prems(1) obtain n where n: "store t (fst ax) = Some n" and p: "p = Some (fst ax)"
    and item: "item n = snd ax"
    and l: "tree_at (store t) (Some (fst ax)) (left n) l"
    and r: "tree_at (store t) (Some (fst ax)) (right n) r"
    by (auto split: option.splits)
  consider "x < item n" | "x = item n" | "x > item n" by fastforce
  then show ?case
  proof cases
    case 1
    then have in_l: "x \<in> set_tree (items l)" using Node.prems(2,3) item by fastforce
    then have "l \<noteq> Leaf" by auto
    then obtain b where ln: "left n = Some b" using l by (cases l) auto
    have ih: "\<exists>bpp'. AVL_Insert_loop t node x (left n) previous' bp' bpp0 head'
        = Option.bind (delete_node t node) (\<lambda>t'. Some (t', None, bpp', None))" for previous' bp' bpp0 head'
      using Node.IH(1) [OF l] Node.prems(2) in_l by simp
    show ?thesis
      using n p 1 ln ih by (subst AVL_Insert_loop.simps) (simp add: rd_def Let_def)
  next
    case 2
    then show ?thesis using n p
      by (subst AVL_Insert_loop.simps) (auto simp: rd_def split: option.splits)
  next
    case 3
    then have in_r: "x \<in> set_tree (items r)" using Node.prems(2,3) item by fastforce
    then have "r \<noteq> Leaf" by auto
    then obtain b where rn: "right n = Some b" using r by (cases r) auto
    have ih: "\<exists>bpp'. AVL_Insert_loop t node x (right n) previous' bp' bpp0 head'
        = Option.bind (delete_node t node) (\<lambda>t'. Some (t', None, bpp', None))" for previous' bp' bpp0 head'
      using Node.IH(2) [OF r] Node.prems(2) in_r by simp
    have "\<not> x < item n" using 3 by simp
    then show ?thesis
      using n p 3 rn ih by (subst AVL_Insert_loop.simps) (simp add: rd_def Let_def)
  qed
qed

lemma new_node_fresh:
  assumes "store t a = None"
  shows "\<exists>t1. new_node t a x c = Some t1 \<and> root t1 = root t
     \<and> (\<forall>b. b \<noteq> a \<longrightarrow> store t1 b = store t b) \<and> delete_node t1 (Some a) = Some t"
proof -
  let ?t1 = "t\<lparr>store := (store t)(a := Some \<lparr>item = x, bal = c, left = None, right = None, parent = None\<rparr>)\<rparr>"
  have "(store t)(a := None) = store t" using assms by (simp add: fun_upd_idem)
  then have "delete_node ?t1 (Some a) = Some t" by (simp add: delete_node_def)
  then show ?thesis using assms by (simp add: new_node_def)
qed

lemma RB_Insert_present:
  assumes "is_tree t s" "bst (items s)" "x \<in> set_tree (items s)" "store t a = None"
  shows "RB_Insert t a x = Some t"
proof -
  obtain t1 where t1: "new_node t a x Red = Some t1" "root t1 = root t"
    "\<And>b. b \<noteq> a \<Longrightarrow> store t1 b = store t b" "delete_node t1 (Some a) = Some t"
    using new_node_fresh [OF assms(4)] by blast
  have "a \<notin> addrs s" using tree_at_live assms(1,4) unfolding is_tree_def by fastforce
  then have "\<And>b. b \<in> addrs s \<Longrightarrow> store t1 b = store t b" using t1(3) by metis
  then have "tree_at (store t1) None (root t1) s"
    using assms(1) t1(2) tree_at_frame unfolding is_tree_def by metis
  from RB_Insert_loop_present [OF this assms(2,3)]
  have "RB_Insert_loop t1 (root t1) None x = Some Duplicate" .
  then show ?thesis using t1 by (simp add: RB_Insert_def)
qed

lemma AVL_Insert_present:
  assumes "is_tree t s" "bst (items s)" "x \<in> set_tree (items s)" "store t a = None"
  shows "AVL_Insert t a x = Some t"
proof -
  obtain t1 where t1: "new_node t a x 0 = Some t1" "root t1 = root t"
    "\<And>b. b \<noteq> a \<Longrightarrow> store t1 b = store t b" "delete_node t1 (Some a) = Some t"
    using new_node_fresh [OF assms(4)] by blast
  have "a \<notin> addrs s" using tree_at_live assms(1,4) unfolding is_tree_def by fastforce
  then have "\<And>b. b \<in> addrs s \<Longrightarrow> store t1 b = store t b" using t1(3) by metis
  then have tr: "tree_at (store t1) None (root t1) s"
    using assms(1) t1(2) tree_at_frame unfolding is_tree_def by metis
  have "s \<noteq> Leaf" using assms(3) by auto
  then obtain r0 where rt: "root t1 = Some r0" using tr by (cases s) auto
  from AVL_Insert_loop_present [OF tr assms(2,3), of "Some a" None None None "root t1"]
  obtain bpp' where "AVL_Insert_loop t1 (Some a) x (root t1) None None None (root t1)
     = Option.bind (delete_node t1 (Some a)) (\<lambda>t'. Some (t', None, bpp', None))" by blast
  then have "AVL_Insert_loop t1 (Some a) x (root t1) None None None (root t1)
     = Some (t, None, bpp', None)" using t1(4) by simp
  then show ?thesis using t1(1) rt by (simp add: AVL_Insert_def)
qed

lemma RB_run_present:
  assumes "is_tree t s" "bst (items s)" "x \<in> set_tree (items s)"
  shows "(\<forall>i<k. store t (a + i) = None) \<Longrightarrow> RB_run t a (replicate k (Ins x)) = Some t"
proof (induction k arbitrary: a)
  case 0
  then show ?case by simp
next
  case (Suc k)
  have "store t a = None" using Suc.prems by (metis add.right_neutral zero_less_Suc)
  then have "RB_Insert t a x = Some t" using RB_Insert_present assms by blast
  moreover have "RB_run t (Suc a) (replicate k (Ins x)) = Some t"
  proof (rule Suc.IH)
    show "\<forall>i<k. store t (Suc a + i) = None" using Suc.prems by (metis add_Suc_shift Suc_less_eq)
  qed
  ultimately show ?case by simp
qed

lemma AVL_run_present:
  assumes "is_tree t s" "bst (items s)" "x \<in> set_tree (items s)"
  shows "(\<forall>i<k. store t (a + i) = None) \<Longrightarrow> AVL_run t a (replicate k (Ins x)) = Some t"
proof (induction k arbitrary: a)
  case 0
  then show ?case by simp
next
  case (Suc k)
  have "store t a = None" using Suc.prems by (metis add.right_neutral zero_less_Suc)
  then have "AVL_Insert t a x = Some t" using AVL_Insert_present assms by blast
  moreover have "AVL_run t (Suc a) (replicate k (Ins x)) = Some t"
  proof (rule Suc.IH)
    show "\<forall>i<k. store t (Suc a + i) = None" using Suc.prems by (metis add_Suc_shift Suc_less_eq)
  qed
  ultimately show ?case by simp
qed

subsection \<open>Trees with a null root\<close>

lemma root_empty_tree: "root empty_tree = None"
  by (simp add: empty_tree_def)

lemma root_Clear: "Clear t = Some t' \<Longrightarrow> root t' = None"
  by (auto simp: Clear_def split: option.splits)

text \<open>
  C10: for every tree whose root is null (a freshly constructed tree, or a tree after
  \<open>Clear()\<close>), \<open>IsValid()\<close> returns true, \<open>Search\<close> returns false for every item, and
  \<open>begin()\<close> equals \<open>end()\<close>, so that the inorder iteration yields the empty sequence.
\<close>

theorem null_root:
  assumes "root t = None"
  shows "RB_IsValid t = Some True \<and> Search t x = Some False
         \<and> begin_it t = end_it t \<and> inorder_items t = Some []"
  using assms
  by (simp add: RB_IsValid_def Search_def begin_it_def end_it_def inorder_items_def
      ConstIterator_def po_begin_def po_Iterator_def po_end_def
      IsValid_red_loop.simps IsValid_black_loop.simps Search_loop.simps iterate.simps)

theorem null_root_witness:
  "root (empty_tree :: int RBTree) = None
   \<and> RB_IsValid (empty_tree :: int RBTree) = Some True
   \<and> Search (empty_tree :: int RBTree) 7 = Some False
   \<and> begin_it (empty_tree :: int RBTree) = end_it (empty_tree :: int RBTree)
   \<and> inorder_items (empty_tree :: int RBTree) = Some []"
  using null_root [of "empty_tree :: int RBTree" 7] by (simp add: root_empty_tree)

subsection \<open>Operation sequences that break the trees\<close>

text \<open>
  C1 (fails on the code): after \<open>Insert\<close> of 1, 2, 3, 4, \<open>Remove(1)\<close> and \<open>Insert(1)\<close> on an
  empty red-black tree, \<open>IsValid()\<close> returns false. \<open>Remove(1)\<close> takes out a black
  bottom-most node without calling \<open>RemoveFixup\<close>, so the black node counts of the
  paths differ from then on.
\<close>

theorem RB_IsValid_false_after_ops:
  "Option.bind (RB_run (empty_tree :: int RBTree) 0 [Ins 1, Ins 2, Ins 3, Ins 4, Rem 1, Ins 1])
     RB_IsValid = Some False"
  by code_simp

text \<open>
  C2 (fails on the code): after \<open>Insert\<close> of 1, 2, 3, 5, 6, 4, 7 and \<open>Remove(1)\<close> on an
  empty AVL tree, \<open>IsValid()\<close> returns false: the node holding 3 is left with the
  balance factor 2.
\<close>

theorem AVL_IsValid_false_after_Remove:
  "Option.bind (AVL_run (empty_tree :: int AVLTree) 0
      [Ins 1, Ins 2, Ins 3, Ins 5, Ins 6, Ins 4, Ins 7, Rem 1]) AVL_IsValid = Some False"
  by code_simp

text \<open>
  C3 (fails on the code): in the red-black tree built by \<open>Insert\<close> of 1, 2, 3, 4 the node
  holding 1 is black and has no children. For it the structural part of \<open>Remove\<close>
  leaves \<open>balancePoint\<close> null, so the guard
  \<open>balancePoint != nullptr && current->color == Black\<close> fails and \<open>RemoveFixup\<close> is not
  run, although the removed node is black.
\<close>

theorem RB_Remove_black_leaf_no_RemoveFixup:
  "Option.bind (RB_run (empty_tree :: int RBTree) 0 [Ins 1, Ins 2, Ins 3, Ins 4]) (\<lambda>t.
     Option.bind (find_node t (root t) 1) (\<lambda>current.
       Option.bind (RB_unlink t current) (\<lambda>s.
         Option.bind (fld color (fst s) current) (\<lambda>c.
           Some (fld left t current, fld right t current, c, snd s)))))
   = Some (Some None, Some None, Black, None)"
  by code_simp

text \<open>
  C4 (fails on the code): inserting 1, 2, 3, 5, 6, 4 into an empty red-black tree and
  removing 2, 1, 3, 4, 5, 6 has no result: \<open>Remove(4)\<close> reads a deleted node. Inserting
  1, 2, 3, 5, 7, 4, 6, 8 into an empty AVL tree has no result either: \<open>Insert(8)\<close>
  writes through the null pointer that \<open>Balance\<close> returns.
\<close>

theorem round_trip_no_result:
  "RB_run (empty_tree :: int RBTree) 0
     [Ins 1, Ins 2, Ins 3, Ins 5, Ins 6, Ins 4, Rem 2, Rem 1, Rem 3, Rem 4, Rem 5, Rem 6] = None
   \<and> AVL_run (empty_tree :: int AVLTree) 0
     [Ins 1, Ins 2, Ins 3, Ins 5, Ins 7, Ins 4, Ins 6, Ins 8,
      Rem 1, Rem 2, Rem 3, Rem 4, Rem 5, Rem 6, Rem 7, Rem 8] = None"
  by code_simp

text \<open>
  C5 (fails on the code): after \<open>Insert\<close> of 1, 2, 3, 5, 6, 7, \<open>Remove(3)\<close>, \<open>Insert(3)\<close>,
  \<open>Insert(4)\<close>, \<open>Remove(2)\<close> and \<open>Insert(3)\<close> on an empty red-black tree, \<open>IsValid()\<close>
  returns true, and the inorder iteration from \<open>begin()\<close> to \<open>end()\<close> yields
  1, 3, 3, 4, 5, 6, 7, which is not strictly ascending. \<open>RemoveFixup\<close> has assigned
  \<open>root = x\<close> where it should end its loop, so \<open>root\<close> points below the top node, and the
  last \<open>Insert(3)\<close> does not meet the node that holds 3.
\<close>

theorem inorder_iteration_not_ascending:
  "Option.bind (RB_run (empty_tree :: int RBTree) 0
       [Ins 1, Ins 2, Ins 3, Ins 5, Ins 6, Ins 7, Rem 3, Ins 3, Ins 4, Rem 2, Ins 3])
     (\<lambda>t. Option.bind (RB_IsValid t) (\<lambda>valid. Option.bind (inorder_items t) (\<lambda>xs. Some (valid, xs))))
   = Some (True, [1, 3, 3, 4, 5, 6, 7])"
  by code_simp

text \<open>
  C7 (fails on the code): \<open>Insert\<close> of 1, 2, 3, 5, 6, 4 and \<open>Remove(2)\<close> on an empty
  red-black tree return (the root is then the node at address 2), but \<open>Clear()\<close> has no
  result on that tree: \<open>Remove(2)\<close> has left a stale parent pointer, and the postorder
  iterator of \<open>Clear()\<close> follows it to a node that \<open>Clear()\<close> has deleted already.
\<close>

theorem Clear_reads_deleted_node:
  "map_option root (RB_run (empty_tree :: int RBTree) 0
       [Ins 1, Ins 2, Ins 3, Ins 5, Ins 6, Ins 4, Rem 2]) = Some (Some 2)
   \<and> Option.bind (RB_run (empty_tree :: int RBTree) 0
       [Ins 1, Ins 2, Ins 3, Ins 5, Ins 6, Ins 4, Rem 2]) Clear = None"
  by code_simp

text \<open>
  C8 (fails on the code): after \<open>Insert\<close> of 1, 2, 3, 5, 6, 7, \<open>Remove(3)\<close>, \<open>Insert(3)\<close>,
  \<open>Insert(4)\<close> and \<open>Remove(2)\<close> on an empty red-black tree, \<open>IsValid()\<close> returns true and
  the inorder sequence is 1, 3, 4, 5, 6, 7. \<open>Insert(3)\<close>, for the key 3 that the tree
  holds, does not discard its node: the inorder sequence becomes 1, 3, 3, 4, 5, 6, 7, and
  the right link of the node that holds 1 (at address 0) changes from null to the new
  node (at address 9).
\<close>

theorem duplicate_Insert_adds_node:
  "Option.bind (RB_run (empty_tree :: int RBTree) 0
       [Ins 1, Ins 2, Ins 3, Ins 5, Ins 6, Ins 7, Rem 3, Ins 3, Ins 4, Rem 2])
     (\<lambda>t. Option.bind (RB_IsValid t) (\<lambda>valid. Option.bind (inorder_items t) (\<lambda>xs.
        Option.bind (RB_Insert t 9 3) (\<lambda>t'. Option.bind (inorder_items t') (\<lambda>xs'.
          Some (valid, xs, xs', map_option right (store t 0), map_option right (store t' 0)))))))
   = Some (True, [1, 3, 4, 5, 6, 7], [1, 3, 3, 4, 5, 6, 7], Some None, Some (Some 9))"
  by code_simp

text \<open>
  C9 (fails on the code): after \<open>Insert\<close> of 1, 2, 3, 7, 8, 6, \<open>Remove(2)\<close>, \<open>Insert(4)\<close>,
  \<open>Insert(5)\<close> and \<open>Remove(6)\<close> on an empty red-black tree, the live nodes (at the
  addresses 0, 2, 3, 4, 6, 7) hold 1, 3, 7, 8, 4, 5, so that no node holds 6. A second
  \<open>Remove(6)\<close> has no result: the left link of the node that holds 7 still points to the
  deleted node, and the search of \<open>Remove\<close> reads it.
\<close>

theorem Remove_absent_reads_deleted_node:
  "Option.bind (RB_run (empty_tree :: int RBTree) 0
       [Ins 1, Ins 2, Ins 3, Ins 7, Ins 8, Ins 6, Rem 2, Ins 4, Ins 5, Rem 6])
     (\<lambda>t. Some (map (\<lambda>a. map_option item (store t a)) [0, 1, 2, 3, 4, 5, 6, 7],
                 Option.is_none (RB_Remove t 6)))
   = Some ([Some 1, None, Some 3, Some 7, Some 8, None, Some 4, Some 5], True)"
  by code_simp

subsection \<open>The example trees\<close>

lemma is_tree_example_RB: "is_tree example_RB example_shape"
  by (simp add: is_tree_def example_RB_def example_shape_def)

lemma is_tree_example_AVL: "is_tree example_AVL example_shape"
  by (simp add: is_tree_def example_AVL_def example_shape_def)

lemma bst_example_shape: "bst (items example_shape)"
  by (simp add: example_shape_def)

lemma example_RB_built: "map_option root (RB_run empty_tree 0 [Ins 2, Ins 1, Ins (3::int)]) = Some (root example_RB)
   \<and> map_option (\<lambda>t. map (store t) [0, 1, 2]) (RB_run empty_tree 0 [Ins 2, Ins 1, Ins (3::int)])
       = Some (map (store example_RB) [0, 1, 2])"
  by code_simp

lemma example_AVL_built: "map_option root (AVL_run empty_tree 0 [Ins 2, Ins 1, Ins (3::int)]) = Some (root example_AVL)
   \<and> map_option (\<lambda>t. map (store t) [0, 1, 2]) (AVL_run empty_tree 0 [Ins 2, Ins 1, Ins (3::int)])
       = Some (map (store example_AVL) [0, 1, 2])"
  by code_simp

subsection \<open>Inorder iteration of well-formed trees\<close>

text \<open>
  On a well-formed tree the inorder iteration from \<open>begin()\<close> to \<open>end()\<close> yields the items
  of the tree from left to right; they ascend strictly if the tree is in search-tree order.
\<close>

lemma inorder_iteration_well_formed:
  assumes "is_tree t s" and "bst (items s)"
  shows "inorder_items t = Some (inorder (items s)) \<and> sorted_wrt (<) (inorder (items s))"
  using inorder_items_tree [OF assms(1)] assms(2)
  by (simp add: inorder_map bst_iff_sorted_wrt_less)

lemma inorder_iteration_well_formed_example:
  "is_tree example_RB example_shape \<and> bst (items example_shape)
   \<and> inorder_items example_RB = Some [1, 2, 3] \<and> sorted_wrt (<) [1, 2, 3 :: int]"
  using inorder_iteration_well_formed [OF is_tree_example_RB bst_example_shape]
    is_tree_example_RB bst_example_shape
  by (simp add: example_shape_def)

subsection \<open>Postorder iteration and Clear on well-formed trees\<close>

text \<open>
  On a well-formed tree the postorder iteration visits every stored element once, children
  before parents (it yields the postorder sequence of the tree); and \<open>Clear()\<close>, which
  deletes each visited node before it advances the iterator, does not read a deleted node:
  it has a result, in which every node of the tree is deleted and the root is null.
\<close>

lemma postorder_and_Clear_well_formed:
  assumes "is_tree t s"
  shows "postorder_items t = Some (postorder (items s))
         \<and> Clear t = Some (deleted (addrs s) t\<lparr>root := None\<rparr>)"
  using postorder_items_tree [OF assms] Clear_tree [OF assms]
  by (simp add: postorder_map)

lemma postorder_and_Clear_well_formed_example:
  "is_tree example_RB example_shape
   \<and> postorder_items example_RB = Some [1, 3, 2]
   \<and> Clear example_RB = Some (deleted {0, 1, 2} example_RB\<lparr>root := None\<rparr>)"
  using postorder_and_Clear_well_formed [OF is_tree_example_RB] is_tree_example_RB
  by (simp add: example_shape_def insert_commute)

subsection \<open>Duplicate Insert and Remove of an absent key on well-formed trees\<close>

text \<open>
  On a well-formed tree in search-tree order, \<open>Insert\<close> of a key that the tree holds, any
  number of times, leaves the tree object as it was: the new node is deleted again and no
  node or link of the tree is changed.
\<close>

lemma duplicate_Insert_well_formed:
  assumes "is_tree t s" and "bst (items s)" and "x \<in> set_tree (items s)"
    and "\<forall>i<k. store t (a + i) = None"
    and "is_tree u s'" and "bst (items s')" and "x \<in> set_tree (items s')"
    and "\<forall>i<k. store u (b + i) = None"
  shows "RB_run t a (replicate k (Ins x)) = Some t \<and> AVL_run u b (replicate k (Ins x)) = Some u"
  using RB_run_present [OF assms(1-3)] AVL_run_present [OF assms(5-7)] assms(4,8)
  by simp

lemma duplicate_Insert_well_formed_example:
  "is_tree example_RB example_shape \<and> is_tree example_AVL example_shape
   \<and> bst (items example_shape) \<and> 3 \<in> set_tree (items example_shape)
   \<and> store example_RB 3 = None \<and> store example_RB 4 = None
   \<and> store example_AVL 3 = None \<and> store example_AVL 4 = None
   \<and> RB_run example_RB 3 [Ins 3, Ins 3] = Some example_RB
   \<and> AVL_run example_AVL 3 [Ins 3, Ins 3] = Some example_AVL"
proof -
  have x: "3 \<in> set_tree (items example_shape)" by (simp add: example_shape_def)
  have f1: "\<forall>i<2. store example_RB (3 + i) = None" by (simp add: example_RB_def)
  have f2: "\<forall>i<2. store example_AVL (3 + i) = None" by (simp add: example_AVL_def)
  have r: "replicate 2 (Ins (3::int)) = [Ins 3, Ins 3]" by (simp add: numeral_2_eq_2)
  show ?thesis
    using duplicate_Insert_well_formed [OF is_tree_example_RB bst_example_shape x f1
        is_tree_example_AVL bst_example_shape x f2]
      is_tree_example_RB is_tree_example_AVL bst_example_shape x
    unfolding r by (simp add: example_RB_def example_AVL_def)
qed

text \<open>
  On a well-formed tree, \<open>Remove\<close> of a key that the tree does not hold returns with the
  tree object as it was.
\<close>

lemma Remove_absent_well_formed:
  assumes "is_tree t s" and "x \<notin> set_tree (items s)"
    and "is_tree u s'" and "x \<notin> set_tree (items s')"
  shows "RB_Remove t x = Some t \<and> AVL_Remove u x = Some u"
  using RB_Remove_absent [OF assms(1,2)] AVL_Remove_absent [OF assms(3,4)] by simp

lemma Remove_absent_well_formed_example:
  "is_tree example_RB example_shape \<and> is_tree example_AVL example_shape
   \<and> 5 \<notin> set_tree (items example_shape)
   \<and> RB_Remove example_RB 5 = Some example_RB \<and> AVL_Remove example_AVL 5 = Some example_AVL"
proof -
  have x: "5 \<notin> set_tree (items example_shape)" by (simp add: example_shape_def)
  show ?thesis
    using Remove_absent_well_formed [OF is_tree_example_RB x is_tree_example_AVL x]
      is_tree_example_RB is_tree_example_AVL x
    by blast
qed

subsection \<open>Insert of a key above all keys, and Intersect\<close>

lemma same_links_refl [simp]: "same_links n n"
  by (simp add: same_links_def)

lemma tree_at_links:
  "tree_at h par p s \<longleftrightarrow> links h par p s \<and> distinct (map fst (inorder s))"
proof (induction s arbitrary: par p)
  case Leaf
  then show ?case by simp
next
  case (Node l ax r)
  have set: "fst ` set (inorder l) = addrs l" "fst ` set (inorder r) = addrs r" by simp_all
  show ?case
    by (cases "h (fst ax)") (auto simp: Node.IH set simp del: set_inorder)
qed

lemma plug_spine [simp]: "plug (spine s) Leaf = s"
  by (induction s) auto

lemma inorder_plug:
  "inorder (plug c s) = concat (map (\<lambda>e. inorder (fst e) @ [snd e]) c) @ inorder s"
  by (induction c) auto

lemma links_rootp: "links h par p s \<Longrightarrow> p = rootp s"
  by (cases s) auto

lemma links_cong:
  "links h par p s \<Longrightarrow>
   (\<And>a n. a \<in> addrs s \<Longrightarrow> h a = Some n \<Longrightarrow> \<exists>n'. h' a = Some n' \<and> same_links n n') \<Longrightarrow>
   links h' par p s"
proof (induction s arbitrary: par p)
  case Leaf
  then show ?case by simp
next
  case (Node l ax r)
  from Node.prems(1) obtain n where n: "h (fst ax) = Some n" and p: "p = Some (fst ax)"
    and it: "item n = snd ax" "parent n = par"
    and l: "links h (Some (fst ax)) (left n) l" and r: "links h (Some (fst ax)) (right n) r"
    by (auto split: option.splits)
  obtain n' where n': "h' (fst ax) = Some n'" "same_links n n'"
    using Node.prems(2) [of "fst ax" n] n by auto
  have "links h' (Some (fst ax)) (left n) l"
    by (rule Node.IH(1) [OF l]) (use Node.prems(2) in auto)
  moreover have "links h' (Some (fst ax)) (right n) r"
    by (rule Node.IH(2) [OF r]) (use Node.prems(2) in auto)
  ultimately show ?case using n' p it by (simp add: same_links_def)
qed

lemma links_frame:
  "links h par p s \<Longrightarrow> (\<And>a. a \<in> addrs s \<Longrightarrow> h' a = h a) \<Longrightarrow> links h' par p s"
  by (erule links_cong) auto

text \<open>Hanging a subtree below another parent: only the parent link of its root changes.\<close>

lemma links_reparent:
  assumes "links h par p s" and "distinct (map fst (inorder s))"
    and "\<And>a. a \<in> addrs s \<Longrightarrow> Some a \<noteq> p \<Longrightarrow> h' a = h a"
    and "\<And>b nb. p = Some b \<Longrightarrow> h b = Some nb \<Longrightarrow>
           \<exists>nb'. h' b = Some nb' \<and> item nb' = item nb \<and> left nb' = left nb \<and> right nb' = right nb
                 \<and> parent nb' = par'"
  shows "links h' par' p s"
proof (cases s)
  case Leaf
  then show ?thesis using assms(1) by simp
next
  case (Node l ax r)
  from assms(1) Node obtain n where n: "h (fst ax) = Some n" and p: "p = Some (fst ax)"
    and it: "item n = snd ax"
    and l: "links h (Some (fst ax)) (left n) l" and r: "links h (Some (fst ax)) (right n) r"
    by (auto split: option.splits)
  from assms(2) Node have d: "fst ax \<notin> addrs l" "fst ax \<notin> addrs r"
    by (auto simp: image_iff)
  obtain n' where n': "h' (fst ax) = Some n'" "item n' = item n" "left n' = left n"
    "right n' = right n" "parent n' = par'"
    using assms(4) [OF p n] by auto
  have "links h' (Some (fst ax)) (left n) l"
  proof (rule links_frame [OF l])
    fix b assume b: "b \<in> addrs l"
    then have "b \<noteq> fst ax" using d by blast
    moreover have "b \<in> addrs s" using b Node by auto
    ultimately show "h' b = h b" using assms(3) [of b] p by simp
  qed
  moreover have "links h' (Some (fst ax)) (right n) r"
  proof (rule links_frame [OF r])
    fix b assume b: "b \<in> addrs r"
    then have "b \<noteq> fst ax" using d by blast
    moreover have "b \<in> addrs s" using b Node by auto
    ultimately show "h' b = h b" using assms(3) [of b] p by simp
  qed
  ultimately show ?thesis using Node n' p it by simp
qed

text \<open>
  Replacing the subtree at the end of a path of right links: the nodes of the path and
  their left subtrees stay, the last node of the path gets the new right link.
\<close>

lemma links_plug_replace:
  assumes "links h par p (plug c s0)"
    and "distinct (map fst (inorder (plug c s0)))"
    and "\<And>a. a \<in> addrs (plug c Leaf) \<Longrightarrow> Some a \<noteq> ctx_last c \<Longrightarrow> h' a = h a"
    and "\<And>m nm. ctx_last c = Some m \<Longrightarrow> h m = Some nm \<Longrightarrow>
           \<exists>nm'. h' m = Some nm' \<and> item nm' = item nm \<and> left nm' = left nm \<and> parent nm' = parent nm
                 \<and> right nm' = q'"
    and "links h' (ctx_par par c) q' s0'"
  shows "links h' par (if c = [] then q' else p) (plug c s0')"
  using assms
proof (induction c arbitrary: par p)
  case Nil
  then show ?case by (simp add: ctx_par_def)
next
  case (Cons e c)
  obtain l a x where e: "e = (l, (a, x))" by (cases e) auto
  from Cons.prems(1) e obtain n where n: "h a = Some n" and p: "p = Some a"
    and it: "item n = x" "parent n = par"
    and l: "links h (Some a) (left n) l" and r: "links h (Some a) (right n) (plug c s0)"
    by (auto split: option.splits)
  from Cons.prems(2) e have d: "a \<notin> addrs l" "a \<notin> addrs (plug c s0)"
    "addrs l \<inter> addrs (plug c s0) = {}" "distinct (map fst (inorder (plug c s0)))"
    by (auto simp: image_iff)
  have sub: "addrs (plug c Leaf) \<subseteq> addrs (plug c s0)"
    by (induction c) auto
  have lastin: "c \<noteq> [] \<Longrightarrow> \<exists>m. ctx_last c = Some m \<and> m \<in> addrs (plug c Leaf)"
    by (induction c) (auto simp: ctx_last_def)
  have l': "links h' (Some a) (left n) l"
  proof (rule links_frame [OF l], rule Cons.prems(3))
    fix b assume b: "b \<in> addrs l"
    show "b \<in> addrs (plug (e # c) Leaf)" using b e by auto
    show "Some b \<noteq> ctx_last (e # c)"
    proof (cases "c = []")
      case True then show ?thesis using b d e by (auto simp: ctx_last_def)
    next
      case False
      then obtain m where "ctx_last c = Some m" "m \<in> addrs (plug c Leaf)" using lastin by blast
      then have "m \<in> addrs (plug c s0)" using sub by blast
      then have "b \<noteq> m" using b d(3) by blast
      then show ?thesis using \<open>ctx_last c = Some m\<close> False by (simp add: ctx_last_def)
    qed
  qed
  show ?case
  proof (cases "c = []")
    case True
    then have "ctx_last (e # c) = Some a" using e by (simp add: ctx_last_def)
    from Cons.prems(4) [OF this n] obtain n' where n': "h' a = Some n'" "item n' = item n"
      "left n' = left n" "parent n' = parent n" "right n' = q'" by auto
    have "links h' (Some a) q' s0'" using Cons.prems(5) True e by (simp add: ctx_par_def ctx_last_def)
    then show ?thesis using True n' l' it p e by simp
  next
    case False
    then obtain m where m: "ctx_last c = Some m" "m \<in> addrs (plug c Leaf)" using lastin by blast
    have last_eq: "ctx_last (e # c) = ctx_last c" using False by (simp add: ctx_last_def)
    have "a \<noteq> m" using m d sub by auto
    then have same: "h' a = h a" using Cons.prems(3) [of a] e m last_eq by auto
    have "links h' (Some a) (if c = [] then q' else right n) (plug c s0')"
    proof (rule Cons.IH [OF r d(4)])
      fix b assume "b \<in> addrs (plug c Leaf)" "Some b \<noteq> ctx_last c"
      then show "h' b = h b" using Cons.prems(3) [of b] e last_eq by auto
    next
      fix m' nm assume "ctx_last c = Some m'" "h m' = Some nm"
      then show "\<exists>nm'. h' m' = Some nm' \<and> item nm' = item nm \<and> left nm' = left nm
          \<and> parent nm' = parent nm \<and> right nm' = q'"
        using Cons.prems(4) [of m' nm] last_eq by simp
    next
      show "links h' (ctx_par (Some a) c) q' s0'"
        using Cons.prems(5) False by (simp add: ctx_par_def ctx_last_def)
    qed
    then show ?thesis using False same n l' it p e by simp
  qed
qed

lemma plug_append: "plug (c @ c') s = plug c (plug c' s)"
  by (induction c) auto

lemma ctx_last_snoc [simp]: "ctx_last (c @ [e]) = Some (fst (snd e))"
  by (simp add: ctx_last_def)

lemma ctx_par_snoc [simp]: "ctx_par par (c @ [e]) = Some (fst (snd e))"
  by (simp add: ctx_par_def)

lemma ctx_par_Nil [simp]: "ctx_par par [] = par"
  by (simp add: ctx_par_def ctx_last_def)

lemma ctx_last_Nil [simp]: "ctx_last [] = None"
  by (simp add: ctx_last_def)

lemma links_plug_focus:
  "links h par p (plug c s0) \<Longrightarrow> links h (ctx_par par c) (rootp s0) s0"
proof (induction c arbitrary: par p)
  case Nil
  then show ?case using links_rootp by (fastforce simp: ctx_par_def)
next
  case (Cons e c)
  from Cons.prems obtain n :: "('a, 'b) node" where "links h (Some (fst (snd e))) (right n) (plug c s0)"
    by (cases "h (fst (snd e))") auto
  from Cons.IH [OF this] show ?case
    by (cases "c = []") (auto simp: ctx_par_def ctx_last_def)
qed

lemma links_node:
  "links h par p (Node l (a, x) r) \<Longrightarrow>
   \<exists>n. h a = Some n \<and> item n = x \<and> parent n = par \<and> left n = rootp l \<and> right n = rootp r
       \<and> links h (Some a) (rootp l) l \<and> links h (Some a) (rootp r) r"
  using links_rootp by (fastforce split: option.splits)

lemma addrs_plug: "addrs (plug c s) = addrs (plug c Leaf) \<union> addrs s"
  by (induction c) auto

lemma ctx_last_in: "ctx_last c = Some m \<Longrightarrow> m \<in> addrs (plug c Leaf)"
  by (induction c) (auto simp: ctx_last_def split: if_splits)

text \<open>A left rotation at the node a1 below a path of right links.\<close>

lemma links_rotate_left:
  fixes h h' :: "addr \<Rightarrow> ('a, 'm) node option"
  assumes L: "links h par p (plug c (Node l1 (a1, x1) (Node l2 (a2, x2) r2)))"
    and D: "distinct (map fst (inorder (plug c (Node l1 (a1, x1) (Node l2 (a2, x2) r2)))))"
    and others: "\<And>a. a \<noteq> a1 \<Longrightarrow> a \<noteq> a2 \<Longrightarrow> Some a \<noteq> rootp l2 \<Longrightarrow> Some a \<noteq> ctx_last c \<Longrightarrow> h' a = h a"
    and N1: "\<And>n1. h a1 = Some n1 \<Longrightarrow> \<exists>n1'. h' a1 = Some n1' \<and> item n1' = item n1
                 \<and> left n1' = left n1 \<and> right n1' = rootp l2 \<and> parent n1' = Some a2"
    and N2: "\<And>n2. h a2 = Some n2 \<Longrightarrow> \<exists>n2'. h' a2 = Some n2' \<and> item n2' = item n2
                 \<and> left n2' = Some a1 \<and> right n2' = right n2 \<and> parent n2' = ctx_par par c"
    and NB: "\<And>b nb. rootp l2 = Some b \<Longrightarrow> h b = Some nb \<Longrightarrow> \<exists>nb'. h' b = Some nb'
                 \<and> item nb' = item nb \<and> left nb' = left nb \<and> right nb' = right nb \<and> parent nb' = Some a1"
    and NM: "\<And>m nm. ctx_last c = Some m \<Longrightarrow> h m = Some nm \<Longrightarrow> \<exists>nm'. h' m = Some nm'
                 \<and> item nm' = item nm \<and> left nm' = left nm \<and> parent nm' = parent nm \<and> right nm' = Some a2"
  shows "links h' par (if c = [] then Some a2 else p) (plug c (Node (Node l1 (a1, x1) l2) (a2, x2) r2))"
proof (rule links_plug_replace [OF L D])
  let ?s0 = "Node l1 (a1, x1) (Node l2 (a2, x2) r2)"
  have io: "inorder (plug c ?s0) = inorder (plug c Leaf) @ inorder l1 @ (a1, x1) # inorder l2 @ (a2, x2) # inorder r2"
    by (simp add: inorder_plug)
  have dis: "distinct (map fst (inorder (plug c Leaf)) @ map fst (inorder l1) @ a1 # map fst (inorder l2) @ a2 # map fst (inorder r2))"
    using D io by simp
  have set: "set (map fst (inorder s)) = addrs s" for s :: "(addr \<times> 'a) tree" by simp
  have d1: "a1 \<notin> addrs (plug c Leaf)" "a2 \<notin> addrs (plug c Leaf)" "addrs l2 \<inter> addrs (plug c Leaf) = {}"
    "a1 \<notin> addrs l1" "a2 \<notin> addrs l1" "addrs l2 \<inter> addrs l1 = {}" "addrs (plug c Leaf) \<inter> addrs l1 = {}"
    "a1 \<notin> addrs l2" "a2 \<notin> addrs l2" "a1 \<noteq> a2"
    "a1 \<notin> addrs r2" "a2 \<notin> addrs r2" "addrs l2 \<inter> addrs r2 = {}" "addrs (plug c Leaf) \<inter> addrs r2 = {}"
    "distinct (map fst (inorder l2))"
    using dis unfolding distinct_append set [symmetric] by (auto simp del: set_map)
  have rl2: "\<And>b. rootp l2 = Some b \<Longrightarrow> b \<in> addrs l2" by (cases l2) auto
  have f: "links h (ctx_par par c) (Some a1) ?s0"
    using links_plug_focus [OF L] by simp
  from links_node [OF f] obtain n1 where n1: "h a1 = Some n1" "item n1 = x1" "parent n1 = ctx_par par c"
    "left n1 = rootp l1" and l1: "links h (Some a1) (rootp l1) l1"
    and r1: "links h (Some a1) (Some a2) (Node l2 (a2, x2) r2)"
    by auto
  from links_node [OF r1] obtain n2 where n2: "h a2 = Some n2" "item n2 = x2"
    "left n2 = rootp l2" "right n2 = rootp r2" and l2: "links h (Some a2) (rootp l2) l2"
    and r2: "links h (Some a2) (rootp r2) r2"
    by auto
  obtain n1' where n1': "h' a1 = Some n1'" "item n1' = item n1" "left n1' = left n1"
    "right n1' = rootp l2" "parent n1' = Some a2" using N1 [OF n1(1)] by auto
  obtain n2' where n2': "h' a2 = Some n2'" "item n2' = item n2" "left n2' = Some a1"
    "right n2' = right n2" "parent n2' = ctx_par par c" using N2 [OF n2(1)] by auto
  have lin: "\<And>m. ctx_last c = Some m \<Longrightarrow> m \<in> addrs (plug c Leaf)" by (rule ctx_last_in)
  have L1: "links h' (Some a1) (rootp l1) l1"
  proof (rule links_frame [OF l1], rule others)
    fix b assume b: "b \<in> addrs l1"
    show "b \<noteq> a1" "b \<noteq> a2" using b d1 by blast+
    show "Some b \<noteq> rootp l2" using b d1(6) rl2 by (metis disjoint_iff)
    show "Some b \<noteq> ctx_last c" using b d1(7) lin by (metis disjoint_iff)
  qed
  have R2: "links h' (Some a2) (rootp r2) r2"
  proof (rule links_frame [OF r2], rule others)
    fix b assume b: "b \<in> addrs r2"
    show "b \<noteq> a1" "b \<noteq> a2" using b d1 by blast+
    show "Some b \<noteq> rootp l2" using b d1(13) rl2 by (metis disjoint_iff)
    show "Some b \<noteq> ctx_last c" using b d1(14) lin by (metis disjoint_iff)
  qed
  have L2: "links h' (Some a1) (rootp l2) l2"
  proof (rule links_reparent [OF l2 d1(15)])
    fix b assume b: "b \<in> addrs l2" "Some b \<noteq> rootp l2"
    show "h' b = h b"
    proof (rule others)
      show "b \<noteq> a1" "b \<noteq> a2" using b d1 by blast+
      show "Some b \<noteq> rootp l2" by fact
      show "Some b \<noteq> ctx_last c" using b d1(3) lin by (metis disjoint_iff)
    qed
  next
    fix b nb assume "rootp l2 = Some b" "h b = Some nb"
    from NB [OF this] show "\<exists>nb'. h' b = Some nb' \<and> item nb' = item nb \<and> left nb' = left nb
        \<and> right nb' = right nb \<and> parent nb' = Some a1" .
  qed
  show "links h' (ctx_par par c) (Some a2) (Node (Node l1 (a1, x1) l2) (a2, x2) r2)"
    using n1' n2' n1 n2 L1 L2 R2 by simp
next
  fix a assume a: "a \<in> addrs (plug c Leaf)" "Some a \<noteq> ctx_last c"
  let ?s0 = "Node l1 (a1, x1) (Node l2 (a2, x2) r2)"
  have io: "inorder (plug c ?s0) = inorder (plug c Leaf) @ inorder l1 @ (a1, x1) # inorder l2 @ (a2, x2) # inorder r2"
    by (simp add: inorder_plug)
  have dis: "distinct (map fst (inorder (plug c Leaf)) @ map fst (inorder l1) @ a1 # map fst (inorder l2) @ a2 # map fst (inorder r2))"
    using D io by simp
  have set: "set (map fst (inorder s)) = addrs s" for s :: "(addr \<times> 'a) tree" by simp
  have d1: "a1 \<notin> addrs (plug c Leaf)" "a2 \<notin> addrs (plug c Leaf)" "addrs l2 \<inter> addrs (plug c Leaf) = {}"
    using dis unfolding distinct_append set [symmetric] by (auto simp del: set_map)
  have rl2: "\<And>b. rootp l2 = Some b \<Longrightarrow> b \<in> addrs l2" by (cases l2) auto
  show "h' a = h a"
  proof (rule others)
    show "a \<noteq> a1" "a \<noteq> a2" using a d1 by blast+
    show "Some a \<noteq> rootp l2" using a d1(3) rl2 by (metis disjoint_iff)
    show "Some a \<noteq> ctx_last c" by fact
  qed
next
  fix m nm assume "ctx_last c = Some m" "h m = Some nm"
  from NM [OF this] show "\<exists>nm'. h' m = Some nm' \<and> item nm' = item nm \<and> left nm' = left nm
      \<and> parent nm' = parent nm \<and> right nm' = Some a2" .
qed

text \<open>Linking a new node below the last node of the path of right links from the root.\<close>

lemma links_attach:
  fixes h h' :: "addr \<Rightarrow> ('a, 'm) node option"
  assumes L: "links h par p (plug c Leaf)"
    and D: "distinct (map fst (inorder (plug c Leaf)))"
    and fresh: "a \<notin> addrs (plug c Leaf)"
    and others: "\<And>b. b \<noteq> a \<Longrightarrow> Some b \<noteq> ctx_last c \<Longrightarrow> h' b = h b"
    and NA: "\<exists>n'. h' a = Some n' \<and> item n' = x \<and> left n' = None \<and> right n' = None
                 \<and> parent n' = ctx_par par c"
    and NM: "\<And>m nm. ctx_last c = Some m \<Longrightarrow> h m = Some nm \<Longrightarrow> \<exists>nm'. h' m = Some nm'
                 \<and> item nm' = item nm \<and> left nm' = left nm \<and> parent nm' = parent nm \<and> right nm' = Some a"
  shows "links h' par (if c = [] then Some a else p) (plug c (Node Leaf (a, x) Leaf))"
proof (rule links_plug_replace [OF L D])
  show "links h' (ctx_par par c) (Some a) (Node Leaf (a, x) Leaf)"
    using NA by auto
next
  fix b assume "b \<in> addrs (plug c Leaf)" "Some b \<noteq> ctx_last c"
  then show "h' b = h b" using others [of b] fresh by auto
next
  fix m nm assume "ctx_last c = Some m" "h m = Some nm"
  from NM [OF this] show "\<exists>nm'. h' m = Some nm' \<and> item nm' = item nm \<and> left nm' = left nm
      \<and> parent nm' = parent nm \<and> right nm' = Some a" .
qed

lemmas heap_defs = rd_def fld_def wr_def set_left_def set_right_def set_parent_def set_bal_def

lemma LeftRotate_run:
  assumes x: "store t x = Some xn" "right xn = Some y" and y: "store t y = Some yn" "x \<noteq> y"
    and b: "\<And>b. left yn = Some b \<Longrightarrow> (\<exists>bn. store t b = Some bn) \<and> b \<noteq> x \<and> b \<noteq> y"
    and m: "\<And>m. parent xn = Some m \<Longrightarrow> (\<exists>mn. store t m = Some mn \<and> left mn \<noteq> Some x)
                 \<and> m \<noteq> x \<and> m \<noteq> y \<and> left yn \<noteq> Some m"
  shows "\<exists>t'. LeftRotate t (Some x) = Some t'
     \<and> root t' = (if parent xn = None then Some y else root t)
     \<and> store t' x = Some (xn\<lparr>right := left yn, parent := Some y\<rparr>)
     \<and> store t' y = Some (yn\<lparr>left := Some x, parent := parent xn\<rparr>)
     \<and> (\<forall>b bn. left yn = Some b \<longrightarrow> store t b = Some bn \<longrightarrow> store t' b = Some (bn\<lparr>parent := Some x\<rparr>))
     \<and> (\<forall>m mn. parent xn = Some m \<longrightarrow> store t m = Some mn \<longrightarrow> store t' m = Some (mn\<lparr>right := Some y\<rparr>))
     \<and> (\<forall>a. a \<noteq> x \<longrightarrow> a \<noteq> y \<longrightarrow> Some a \<noteq> left yn \<longrightarrow> Some a \<noteq> parent xn \<longrightarrow> store t' a = store t a)"
proof (cases "left yn")
  case None
  note yl = None
  show ?thesis
  proof (cases "parent xn")
    case None
    show ?thesis using x y yl None
      by (simp add: LeftRotate_def heap_defs)
  next
    case (Some m)
    from m [OF Some] obtain mn where mn: "store t m = Some mn" "left mn \<noteq> Some x" "m \<noteq> x" "m \<noteq> y"
      by auto
    show ?thesis using x y yl Some mn
      by (simp add: LeftRotate_def heap_defs)
  qed
next
  case (Some b')
  note yl = Some
  from b [OF Some] obtain bn where bn: "store t b' = Some bn" "b' \<noteq> x" "b' \<noteq> y" by auto
  show ?thesis
  proof (cases "parent xn")
    case None
    show ?thesis using x y yl None bn
      by (simp add: LeftRotate_def heap_defs)
  next
    case (Some m)
    from m [OF Some] yl obtain mn where mn: "store t m = Some mn" "left mn \<noteq> Some x" "m \<noteq> x" "m \<noteq> y" "m \<noteq> b'"
      by auto
    show ?thesis using x y yl Some mn bn
      by (simp add: LeftRotate_def heap_defs)
  qed
qed

lemma list_two_cases:
  obtains "c = []" | e where "c = [e]" | c' e1 e2 where "c = c' @ [e1, e2]"
proof (cases c rule: rev_cases)
  case Nil
  then show ?thesis using that by simp
next
  case (snoc c1 e2)
  then show ?thesis
  proof (cases c1 rule: rev_cases)
    case Nil
    then show ?thesis using snoc that by simp
  next
    case (snoc c' e1)
    then show ?thesis using \<open>c = c1 @ [e2]\<close> that by simp
  qed
qed

lemma rootp_in: "rootp s = Some b \<Longrightarrow> b \<in> addrs s"
  by (cases s) auto

lemma rootp_plug: "rootp (plug c s) = (if c = [] then rootp s else Some (fst (snd (hd c))))"
  by (cases c) auto

lemma hd_in_plug: "c \<noteq> [] \<Longrightarrow> fst (snd (hd c)) \<in> addrs (plug c Leaf)"
  by (cases c) auto

lemma InsertFixup_body_red_uncle:
  assumes z: "store t z = Some nz" "parent nz = Some ap"
    and ap: "store t ap = Some np" "parent np = Some app"
    and app: "store t app = Some npp" "left npp = Some b" "b \<noteq> ap"
    and b: "store t b = Some nb" "color nb = Red"
    and dist: "z \<noteq> ap" "z \<noteq> app" "ap \<noteq> app" "b \<noteq> z" "b \<noteq> app"
  shows "InsertFixup_body t (Some z)
     = Some (t\<lparr>store := (store t)(ap := Some (np\<lparr>bal := Black\<rparr>), b := Some (nb\<lparr>bal := Black\<rparr>),
                                   app := Some (npp\<lparr>bal := Red\<rparr>))\<rparr>, Some app)"
  using assms
  by (simp add: InsertFixup_body_def heap_defs is_red_def grandparent_def)

lemma InsertFixup_body_black_uncle:
  assumes z: "store t z = Some nz" "parent nz = Some ap"
    and ap: "store t ap = Some np" "parent np = Some app" "left np \<noteq> Some z"
    and app: "store t app = Some npp" "left npp \<noteq> Some ap"
    and b: "left npp = None \<or> (\<exists>b nb. left npp = Some b \<and> store t b = Some nb \<and> color nb = Black)"
    and dist: "z \<noteq> ap" "z \<noteq> app" "ap \<noteq> app"
  shows "InsertFixup_body t (Some z)
     = Option.bind (LeftRotate (t\<lparr>store := (store t)(ap := Some (np\<lparr>bal := Black\<rparr>),
                                   app := Some (npp\<lparr>bal := Red\<rparr>))\<rparr>) (Some app))
         (\<lambda>t2. Some (t2, Some z))"
  using assms
  by (auto simp: InsertFixup_body_def heap_defs is_red_def grandparent_def)

lemma links_ctx_last_node:
  fixes c :: "'a ctx"
  assumes "links h par p (plug c s0)" and "ctx_last c = Some m"
  shows "\<exists>mn (lm :: (addr \<times> 'a) tree). h m = Some mn \<and> right mn = rootp s0 \<and> left mn = rootp lm
           \<and> addrs lm \<subseteq> addrs (plug c Leaf) \<and> m \<in> addrs (plug c Leaf)"
proof -
  from assms(2) obtain c'' e where c: "c = c'' @ [e]" and m: "m = fst (snd e)"
    by (cases c rule: rev_cases) (auto simp: ctx_last_def)
  obtain lm xm where e: "e = (lm, (m, xm))" using m by (cases e) auto
  have "plug c s0 = plug c'' (Node lm (m, xm) s0)" using c e by (simp add: plug_append)
  with assms(1) have "links h (ctx_par par c'') (Some m) (Node lm (m, xm) s0)"
    using links_plug_focus by fastforce
  from links_node [OF this] obtain mn where mn: "h m = Some mn" "right mn = rootp s0" "left mn = rootp lm"
    by auto
  have "addrs (Node lm (m, xm) Leaf) \<subseteq> addrs (plug c'' (Node lm (m, xm) Leaf))"
    by (induction c'') auto
  then have sub: "addrs lm \<subseteq> addrs (plug c Leaf)" "m \<in> addrs (plug c Leaf)"
    using c e by (auto simp: plug_append)
  show ?thesis
  proof (intro exI conjI)
    show "h m = Some mn" "right mn = rootp s0" "left mn = rootp lm" by fact+
    show "addrs lm \<subseteq> addrs (plug c Leaf)" "m \<in> addrs (plug c Leaf)" by fact+
  qed
qed

lemma InsertFixup_loop_spine:
  fixes t :: "'a RBTree"
  assumes "links (store t) None (root t) (plug c sz)"
    and "distinct (map fst (inorder (plug c sz)))"
    and "rootp sz = Some z"
    and "c \<noteq> [] \<Longrightarrow> fld color t (root t) = Some Black"
  shows "\<exists>t' s'. InsertFixup_loop t (Some z) = Some t' \<and> links (store t') None (root t') s'
      \<and> inorder s' = inorder (plug c sz) \<and> (\<forall>b. store t' b = None \<longleftrightarrow> store t b = None)
      \<and> root t' \<noteq> None"
  using assms
proof (induction "length c" arbitrary: c sz z t rule: less_induct)
  case less
  obtain lz xz rz where sz: "sz = Node lz (z, xz) rz" using less.prems(3) by (cases sz) auto
  note L = less.prems(1) and D = less.prems(2)
  have exit: "?case" if "InsertFixup_loop t (Some z) = Some t" "root t \<noteq> None"
    by (intro exI [of _ t] exI [of _ "plug c sz"]) (use that L in simp)
  show ?case
  proof (cases c rule: list_two_cases)
    case 1
    have rt: "root t = Some z" using L 1 sz by simp
    then have "InsertFixup_loop t (Some z) = Some t"
      by (subst InsertFixup_loop.simps) (simp add: InsertFixup_cond_def)
    then show ?thesis using rt by (intro exit) simp_all
  next
    case (2 e)
    obtain l a xa where e: "e = (l, (a, xa))" by (cases e) auto
    have pl: "plug c sz = Node l (a, xa) sz" using 2 e by simp
    from L pl have rt: "root t = Some a" by simp
    from L pl rt links_node [of "store t" None "Some a" l a xa sz]
    obtain na where na: "store t a = Some na" and lsz: "links (store t) (Some a) (rootp sz) sz"
      by auto
    from links_node [of "store t" "Some a" "Some z" lz z xz rz] lsz sz
    obtain nz where nz: "store t z = Some nz" "parent nz = Some a" by auto
    have "a \<noteq> z" using D pl sz by auto
    have "fld color t (Some a) = Some Black" using less.prems(4) 2 rt by simp
    then have "InsertFixup_cond t (Some z) = Some False"
      using rt nz na \<open>a \<noteq> z\<close> by (auto simp: InsertFixup_cond_def heap_defs)
    then have "InsertFixup_loop t (Some z) = Some t"
      by (subst InsertFixup_loop.simps) simp
    then show ?thesis using rt by (intro exit) simp_all
  next
    case (3 c' epp ep)
    obtain lpp app xpp where epp: "epp = (lpp, (app, xpp))" by (cases epp) auto
    obtain lp ap xp where ep: "ep = (lp, (ap, xp))" by (cases ep) auto
    let ?S = "Node lpp (app, xpp) (Node lp (ap, xp) sz)"
    let ?S' = "Node (Node lpp (app, xpp) lp) (ap, xp) sz"
    have pl: "plug c sz = plug c' ?S" using 3 epp ep by (simp add: plug_append)
    have L': "links (store t) None (root t) (plug c' ?S)" using L pl by simp
    have D': "distinct (map fst (inorder (plug c' ?S)))" using D pl by simp
    have io: "inorder (plug c' ?S) = inorder (plug c' Leaf) @ inorder lpp @ (app, xpp) # inorder lp
        @ (ap, xp) # inorder lz @ (z, xz) # inorder rz"
      by (simp add: inorder_plug sz)
    have set: "set (map fst (inorder s)) = addrs s" for s :: "(addr \<times> 'a) tree" by simp
    have dz: "z \<noteq> ap" "z \<noteq> app" "ap \<noteq> app"
      and dc: "app \<notin> addrs (plug c' Leaf)" "ap \<notin> addrs (plug c' Leaf)" "z \<notin> addrs (plug c' Leaf)"
      and dlpp: "app \<notin> addrs lpp" "ap \<notin> addrs lpp" "z \<notin> addrs lpp"
      and dlp: "app \<notin> addrs lp" "ap \<notin> addrs lp" "z \<notin> addrs lp"
      and dx: "addrs lpp \<inter> addrs lp = {}" "addrs (plug c' Leaf) \<inter> addrs lp = {}"
        "addrs (plug c' Leaf) \<inter> addrs lpp = {}"
      using D' unfolding io map_append list.map distinct_append distinct.simps set [symmetric]
      by (auto simp del: set_map)
    have f: "links (store t) (ctx_par None c') (Some app) ?S"
      using links_plug_focus [OF L'] by simp
    from links_node [OF f] obtain npp where npp: "store t app = Some npp" "parent npp = ctx_par None c'"
      "left npp = rootp lpp" "right npp = Some ap" and llpp: "links (store t) (Some app) (rootp lpp) lpp"
      and f2: "links (store t) (Some app) (Some ap) (Node lp (ap, xp) sz)"
      by auto
    from links_node [OF f2] obtain np where np: "store t ap = Some np" "parent np = Some app"
      "left np = rootp lp" "right np = Some z" and llp: "links (store t) (Some ap) (rootp lp) lp"
      and f3: "links (store t) (Some ap) (Some z) sz"
      using sz by auto
    from links_node [of "store t" "Some ap" "Some z" lz z xz rz] f3 sz
    obtain nz where nz: "store t z = Some nz" "parent nz = Some ap" by auto
    have rt: "root t = (if c' = [] then Some app else Some (fst (snd (hd c'))))"
      using links_rootp [OF L'] by (simp add: rootp_plug)
    have zroot: "Some z \<noteq> root t"
      using rt dz dc(3) hd_in_plug [of c'] by (auto split: if_splits)
    have cond: "InsertFixup_cond t (Some z) = Some (color np = Red)"
      using zroot nz np by (auto simp: InsertFixup_cond_def heap_defs)
    show ?thesis
    proof (cases "color np = Red")
      case False
      then have "InsertFixup_loop t (Some z) = Some t"
        using cond by (subst InsertFixup_loop.simps) simp
      moreover have "root t \<noteq> None" using rt by (simp split: if_splits)
      ultimately show ?thesis by (rule exit)
    next
      case True
      have lnp: "left np \<noteq> Some z" using np(3) dlp(3) rootp_in by metis
      have lnpp: "left npp \<noteq> Some ap" using npp(3) dlpp(2) rootp_in by metis
      consider (red) b nb where "left npp = Some b" "store t b = Some nb" "color nb = Red"
        | (black) "left npp = None \<or> (\<exists>b nb. left npp = Some b \<and> store t b = Some nb \<and> color nb = Black)"
      proof (cases lpp)
        case Leaf
        then have "left npp = None" using npp(3) by simp
        then show ?thesis using that(2) by blast
      next
        case (Node l1 bx l2)
        then obtain b where b: "left npp = Some b" using npp(3) by simp
        obtain xb where "bx = (b, xb)" using b npp(3) Node by (cases bx) auto
        with llpp Node links_node [of "store t" "Some app" "Some b" l1 b xb l2] b npp(3)
        obtain nb where nb: "store t b = Some nb" by auto
        show ?thesis
        proof (cases "color nb")
          case Red
          then show ?thesis using that(1) [OF b nb] by simp
        next
          case Black
          then show ?thesis using that(2) b nb by simp
        qed
      qed
      then show ?thesis
      proof cases
        case red
        have bin: "b \<in> addrs lpp" using red(1) npp(3) rootp_in by metis
        then have db: "b \<noteq> ap" "b \<noteq> z" "b \<noteq> app" using dlpp by auto
        define t1 where "t1 = t\<lparr>store := (store t)(ap := Some (np\<lparr>bal := Black\<rparr>),
            b := Some (nb\<lparr>bal := Black\<rparr>), app := Some (npp\<lparr>bal := Red\<rparr>))\<rparr>"
        have body: "InsertFixup_body t (Some z) = Some (t1, Some app)"
          unfolding t1_def
          by (rule InsertFixup_body_red_uncle [OF nz np(1,2) npp(1) red(1) db(1) red(2,3) dz db(2,3)])
        have step: "InsertFixup_loop t (Some z) = InsertFixup_loop t1 (Some app)"
          using cond True body by (subst InsertFixup_loop.simps) simp
        have root1: "root t1 = root t" by (simp add: t1_def)
        have dom1: "\<And>a. store t1 a = None \<longleftrightarrow> store t a = None"
          using np(1) npp(1) red(2) by (simp add: t1_def)
        have L1: "links (store t1) None (root t1) (plug c' ?S)"
          unfolding root1
        proof (rule links_cong [OF L'])
          fix a n assume "store t a = Some n"
          then show "\<exists>n'. store t1 a = Some n' \<and> same_links n n'"
            using np(1) npp(1) red(2) by (auto simp: t1_def same_links_def)
        qed
        have col1: "fld color t1 (root t1) = Some Black" if "c' \<noteq> []"
        proof -
          let ?r = "fst (snd (hd c'))"
          have r: "root t = Some ?r" using rt that by simp
          have "?r \<in> addrs (plug c' Leaf)" by (rule hd_in_plug [OF that])
          then have "?r \<noteq> ap" "?r \<noteq> app" "?r \<noteq> b" using dc dx(3) bin by auto
          then have "store t1 ?r = store t ?r" by (simp add: t1_def)
          moreover have "fld color t (root t) = Some Black" using less.prems(4) 3 by simp
          ultimately show ?thesis using r root1 by (simp add: heap_defs)
        qed
        have "length c' < length c" using 3 by simp
        from less.hyps [OF this L1 D' _ col1]
        obtain t' s' where "InsertFixup_loop t1 (Some app) = Some t'"
          "links (store t') None (root t') s'" "inorder s' = inorder (plug c' ?S)"
          "\<forall>b. store t' b = None \<longleftrightarrow> store t1 b = None" "root t' \<noteq> None"
          by auto
        then show ?thesis using step pl dom1
          by (intro exI [of _ t'] exI [of _ s']) simp
      next
        case black
        define t1 where "t1 = t\<lparr>store := (store t)(ap := Some (np\<lparr>bal := Black\<rparr>),
            app := Some (npp\<lparr>bal := Red\<rparr>))\<rparr>"
        have body: "InsertFixup_body t (Some z)
            = Option.bind (LeftRotate t1 (Some app)) (\<lambda>t2. Some (t2, Some z))"
          unfolding t1_def
          by (rule InsertFixup_body_black_uncle [OF nz np(1,2) lnp npp(1) lnpp black dz])
        have root1: "root t1 = root t" by (simp add: t1_def)
        have L1: "links (store t1) None (root t) (plug c' ?S)"
        proof (rule links_cong [OF L'])
          fix a n assume "store t a = Some n"
          then show "\<exists>n'. store t1 a = Some n' \<and> same_links n n'"
            using np(1) npp(1) by (auto simp: t1_def same_links_def)
        qed
        have live_lp: "store t b \<noteq> None" if "rootp lp = Some b" for b
        proof (cases lp)
          case Leaf then show ?thesis using that by simp
        next
          case (Node l1 bx l2)
          then show ?thesis using llp that by (auto split: option.splits)
        qed
        have live_m: "store t m \<noteq> None" if "ctx_par None c' = Some m" for m
        proof -
          have "ctx_last c' = Some m" using that by (simp add: ctx_par_def split: if_splits)
          from links_ctx_last_node [OF L' this] show ?thesis by auto
        qed
        have s1app: "store t1 app = Some (npp\<lparr>bal := Red\<rparr>)" by (simp add: t1_def)
        have s1ap: "store t1 ap = Some (np\<lparr>bal := Black\<rparr>)" using dz by (simp add: t1_def)
        have s1o: "\<And>a. a \<noteq> ap \<Longrightarrow> a \<noteq> app \<Longrightarrow> store t1 a = store t a" by (simp add: t1_def)
        have "\<exists>t2. LeftRotate t1 (Some app) = Some t2
           \<and> root t2 = (if parent (npp\<lparr>bal := Red\<rparr>) = None then Some ap else root t1)
           \<and> store t2 app = Some (npp\<lparr>bal := Red\<rparr>\<lparr>right := left (np\<lparr>bal := Black\<rparr>), parent := Some ap\<rparr>)
           \<and> store t2 ap = Some (np\<lparr>bal := Black\<rparr>\<lparr>left := Some app, parent := parent (npp\<lparr>bal := Red\<rparr>)\<rparr>)
           \<and> (\<forall>b bn. left (np\<lparr>bal := Black\<rparr>) = Some b \<longrightarrow> store t1 b = Some bn \<longrightarrow> store t2 b = Some (bn\<lparr>parent := Some app\<rparr>))
           \<and> (\<forall>m mn. parent (npp\<lparr>bal := Red\<rparr>) = Some m \<longrightarrow> store t1 m = Some mn \<longrightarrow> store t2 m = Some (mn\<lparr>right := Some ap\<rparr>))
           \<and> (\<forall>a. a \<noteq> app \<longrightarrow> a \<noteq> ap \<longrightarrow> Some a \<noteq> left (np\<lparr>bal := Black\<rparr>) \<longrightarrow> Some a \<noteq> parent (npp\<lparr>bal := Red\<rparr>) \<longrightarrow> store t2 a = store t1 a)"
        proof (rule LeftRotate_run [OF s1app _ s1ap])
          show "right (npp\<lparr>bal := Red\<rparr>) = Some ap" using npp by simp
          show "app \<noteq> ap" using dz by simp
        next
          fix b assume "left (np\<lparr>bal := Black\<rparr>) = Some b"
          then have b: "rootp lp = Some b" using np(3) by simp
          then have bin: "b \<in> addrs lp" by (rule rootp_in)
          have "store t b \<noteq> None" using live_lp [OF b] .
          moreover have "b \<noteq> app" "b \<noteq> ap" using bin dlp by auto
          ultimately show "(\<exists>bn. store t1 b = Some bn) \<and> b \<noteq> app \<and> b \<noteq> ap"
            using s1o by auto
        next
          fix m assume "parent (npp\<lparr>bal := Red\<rparr>) = Some m"
          then have m: "ctx_par None c' = Some m" using npp(2) by simp
          then have ml: "ctx_last c' = Some m" by (simp add: ctx_par_def split: if_splits)
          from links_ctx_last_node [OF L' ml] obtain mn and lm :: "(addr \<times> 'a) tree" where mn: "store t m = Some mn"
            "left mn = rootp lm" "addrs lm \<subseteq> addrs (plug c' Leaf)" "m \<in> addrs (plug c' Leaf)"
            by (elim exE conjE) (rule that, assumption+)
          have "left mn \<noteq> Some app" using mn(2,3) dc(1) rootp_in by (metis subsetD)
          moreover have "m \<noteq> app" "m \<noteq> ap" using mn(4) dc by auto
          moreover have "left np \<noteq> Some m"
            using np(3) mn(4) dx(2) rootp_in by (metis disjoint_iff)
          then have "left (np\<lparr>bal := Black\<rparr>) \<noteq> Some m" by simp
          ultimately show "(\<exists>mn. store t1 m = Some mn \<and> left mn \<noteq> Some app) \<and> m \<noteq> app \<and> m \<noteq> ap
              \<and> left (np\<lparr>bal := Black\<rparr>) \<noteq> Some m"
            using mn(1) s1o by auto
        qed
        then obtain t2 where run: "LeftRotate t1 (Some app) = Some t2"
          and rt2: "root t2 = (if c' = [] then Some ap else root t)"
          and s2app: "store t2 app = Some (npp\<lparr>bal := Red, right := rootp lp, parent := Some ap\<rparr>)"
          and s2ap: "store t2 ap = Some (np\<lparr>bal := Black, left := Some app, parent := ctx_par None c'\<rparr>)"
          and s2b: "\<And>b bn. rootp lp = Some b \<Longrightarrow> store t1 b = Some bn \<Longrightarrow> store t2 b = Some (bn\<lparr>parent := Some app\<rparr>)"
          and s2m: "\<And>m mn. ctx_par None c' = Some m \<Longrightarrow> store t1 m = Some mn \<Longrightarrow> store t2 m = Some (mn\<lparr>right := Some ap\<rparr>)"
          and s2o: "\<And>a. a \<noteq> app \<Longrightarrow> a \<noteq> ap \<Longrightarrow> Some a \<noteq> rootp lp \<Longrightarrow> Some a \<noteq> ctx_par None c' \<Longrightarrow> store t2 a = store t1 a"
          using npp np root1 by (auto simp: ctx_par_def ctx_last_def split: if_splits)
        have L2: "links (store t2) None (if c' = [] then Some ap else root t) (plug c' ?S')"
        proof (rule links_rotate_left [OF L1 D'])
          fix a assume "a \<noteq> app" "a \<noteq> ap" "Some a \<noteq> rootp lp" "Some a \<noteq> ctx_last c'"
          then show "store t2 a = store t1 a" using s2o [of a] by (auto simp: ctx_par_def)
        next
          fix n1 assume "store t1 app = Some n1"
          then show "\<exists>n1'. store t2 app = Some n1' \<and> item n1' = item n1 \<and> left n1' = left n1
              \<and> right n1' = rootp lp \<and> parent n1' = Some ap"
            using s1app s2app by auto
        next
          fix n2 assume "store t1 ap = Some n2"
          then show "\<exists>n2'. store t2 ap = Some n2' \<and> item n2' = item n2 \<and> left n2' = Some app
              \<and> right n2' = right n2 \<and> parent n2' = ctx_par None c'"
            using s1ap s2ap by auto
        next
          fix b nb assume "rootp lp = Some b" "store t1 b = Some nb"
          then show "\<exists>nb'. store t2 b = Some nb' \<and> item nb' = item nb \<and> left nb' = left nb
              \<and> right nb' = right nb \<and> parent nb' = Some app"
            using s2b by auto
        next
          fix m nm assume "ctx_last c' = Some m" "store t1 m = Some nm"
          then show "\<exists>nm'. store t2 m = Some nm' \<and> item nm' = item nm \<and> left nm' = left nm
              \<and> parent nm' = parent nm \<and> right nm' = Some ap"
            using s2m [of m nm] by (auto simp: ctx_par_def ctx_last_def split: if_splits)
        qed
        have z2: "store t2 z = Some nz"
        proof -
          have "Some z \<noteq> rootp lp" using dlp(3) rootp_in by metis
          moreover have "Some z \<noteq> ctx_par None c'"
            using dc(3) ctx_last_in [of c' z] by (auto simp: ctx_par_def split: if_splits)
          ultimately have "store t2 z = store t1 z" using s2o dz by simp
          then show ?thesis using s1o dz nz by simp
        qed
        have zroot2: "Some z \<noteq> root t2" using rt2 zroot dz by (simp split: if_splits)
        have "InsertFixup_cond t2 (Some z) = Some False"
          using zroot2 z2 nz(2) s2ap by (auto simp: InsertFixup_cond_def heap_defs)
        then have "InsertFixup_loop t2 (Some z) = Some t2"
          by (subst InsertFixup_loop.simps) simp
        then have loop: "InsertFixup_loop t (Some z) = Some t2"
          using cond True body run by (subst InsertFixup_loop.simps) simp
        have dom2: "store t2 a = None \<longleftrightarrow> store t a = None" for a
        proof -
          have d1: "store t1 a = None \<longleftrightarrow> store t a = None" using np(1) npp(1) by (simp add: t1_def)
          consider "a = app" | "a = ap" | "Some a = rootp lp" "a \<noteq> app" "a \<noteq> ap"
            | "Some a = ctx_par None c'" "a \<noteq> app" "a \<noteq> ap" "Some a \<noteq> rootp lp"
            | "a \<noteq> app" "a \<noteq> ap" "Some a \<noteq> rootp lp" "Some a \<noteq> ctx_par None c'" by metis
          then show ?thesis
          proof cases
            case 1 then show ?thesis using s2app npp(1) by simp
          next
            case 2 then show ?thesis using s2ap np(1) by simp
          next
            case 3
            then have "store t a \<noteq> None" using live_lp [of a] by simp
            then show ?thesis using 3 s2b [of a] d1 by (cases "store t1 a") auto
          next
            case 4
            then have "store t a \<noteq> None" using live_m [of a] by simp
            then show ?thesis using 4 s2m [of a] d1 by (cases "store t1 a") auto
          next
            case 5 then show ?thesis using s2o d1 by simp
          qed
        qed
        have "root t2 \<noteq> None" using rt2 rt by (simp split: if_splits)
        moreover have "inorder (plug c' ?S') = inorder (plug c sz)"
          using pl by (simp add: inorder_plug)
        ultimately show ?thesis using loop L2 rt2 dom2 by (intro exI [of _ t2] exI [of _ "plug c' ?S'"]) simp
      qed
    qed
  qed
qed

lemma ctx_last_spine_Node:
  "ctx_last (e # spine r) = (if r = Leaf then Some (fst (snd e)) else ctx_last (spine r))"
  by (cases r) (auto simp: ctx_last_def)

lemma RB_Insert_loop_max:
  fixes t :: "'a::linorder RBTree"
  shows "links (store t) par p s \<Longrightarrow> \<forall>y \<in> set_tree (items s). y < x \<Longrightarrow>
   RB_Insert_loop t p previous x = Some (Attach (if s = Leaf then previous else ctx_last (spine s)))"
proof (induction s arbitrary: par p previous)
  case Leaf
  then show ?case by (simp add: RB_Insert_loop.simps)
next
  case (Node l ax r)
  from Node.prems(1) obtain n where n: "store t (fst ax) = Some n" and p: "p = Some (fst ax)"
    and it: "item n = snd ax" and r: "links (store t) (Some (fst ax)) (right n) r"
    by (auto split: option.splits)
  have lt: "item n < x" using Node.prems(2) it by simp
  have "RB_Insert_loop t (right n) p x = Some (Attach (if r = Leaf then p else ctx_last (spine r)))"
    using Node.IH(2) [OF r] Node.prems(2) by simp
  moreover have "\<not> x < item n" using lt by simp
  ultimately show ?case using n p lt
    by (subst RB_Insert_loop.simps) (simp add: ctx_last_spine_Node)
qed

lemma links_live: "links h par p s \<Longrightarrow> a \<in> addrs s \<Longrightarrow> h a \<noteq> None"
proof (induction s arbitrary: par p)
  case Leaf
  then show ?case by simp
next
  case (Node l ax r)
  from Node.prems(1) obtain n where n: "h (fst ax) = Some n"
    and l: "links h (Some (fst ax)) (left n) l" and r: "links h (Some (fst ax)) (right n) r"
    by (auto split: option.splits)
  from Node.prems(2) consider "a = fst ax" | "a \<in> addrs l" | "a \<in> addrs r" by auto
  then show ?case
  proof cases
    case 1 then show ?thesis using n by simp
  next
    case 2 then show ?thesis using Node.IH(1) [OF l] by simp
  next
    case 3 then show ?thesis using Node.IH(2) [OF r] by simp
  qed
qed

lemma links_max_item:
  fixes h :: "addr \<Rightarrow> ('a::linorder, 'm) node option"
  assumes "links h par p s" and "ctx_last (spine s) = Some m" and "\<forall>y \<in> set_tree (items s). y < x"
  shows "\<exists>mn. h m = Some mn \<and> item mn < x"
  using assms
proof (induction s arbitrary: par p)
  case Leaf
  then show ?case by simp
next
  case (Node l ax r)
  from Node.prems(1) obtain n where n: "h (fst ax) = Some n"
    and it: "item n = snd ax" and r: "links h (Some (fst ax)) (right n) r"
    by (auto split: option.splits)
  show ?case
  proof (cases "r = Leaf")
    case True
    then have "m = fst ax" using Node.prems(2) by (simp add: ctx_last_def)
    then show ?thesis using n it Node.prems(3) by simp
  next
    case False
    then have "ctx_last (spine r) = Some m" using Node.prems(2) by (simp add: ctx_last_spine_Node)
    from Node.IH(2) [OF r this] Node.prems(3) show ?thesis by simp
  qed
qed

lemma RB_Insert_max:
  fixes t :: "'a::linorder RBTree"
  assumes T: "is_tree t s" and B: "root t \<noteq> None \<Longrightarrow> fld color t (root t) = Some Black"
    and big: "\<forall>y \<in> set_tree (items s). y < x" and fresh: "store t a = None"
  shows "\<exists>t' s'. RB_Insert t a x = Some t' \<and> is_tree t' s' \<and> inorder s' = inorder s @ [(a, x)]
      \<and> fld color t' (root t') = Some Black \<and> (\<forall>b. store t' b = None \<longleftrightarrow> (store t b = None \<and> b \<noteq> a))"
proof -
  let ?c = "spine s"
  let ?sz = "Node Leaf (a, x) Leaf"
  have L: "links (store t) None (root t) s" and D: "distinct (map fst (inorder s))"
    using T by (simp_all add: is_tree_def tree_at_links)
  have anot: "a \<notin> addrs s"
  proof
    assume "a \<in> addrs s"
    from links_live [OF L this] fresh show False by simp
  qed
  define nn :: "('a, RBColor) node" where "nn = \<lparr>item = x, bal = Red, left = None, right = None, parent = None\<rparr>"
  define t1 where "t1 = t\<lparr>store := (store t)(a := Some nn)\<rparr>"
  have new: "new_node t a x Red = Some t1" using fresh by (simp add: new_node_def t1_def nn_def)
  have L1: "links (store t1) None (root t1) s"
  proof -
    have "links (store t1) None (root t) s"
    proof (rule links_frame [OF L])
      fix b assume "b \<in> addrs s"
      then have "b \<noteq> a" using anot by auto
      then show "store t1 b = store t b" by (simp add: t1_def)
    qed
    then show ?thesis by (simp add: t1_def)
  qed
  have desc: "RB_Insert_loop t1 (root t1) None x = Some (Attach (ctx_last ?c))"
    using RB_Insert_loop_max [OF L1 big, of None] by (cases s) auto
  \<comment> \<open>linking the node\<close>
  have "\<exists>t2. (do { t \<leftarrow> set_parent t1 (Some a) (ctx_last ?c);
              (if ctx_last ?c = None then Some (t\<lparr>root := Some a\<rparr>)
               else do { pitem \<leftarrow> fld item t (ctx_last ?c);
                         if x < pitem then set_left t (ctx_last ?c) (Some a)
                         else set_right t (ctx_last ?c) (Some a) }) }) = Some t2
      \<and> root t2 = (if ?c = [] then Some a else root t)
      \<and> store t2 a = Some (nn\<lparr>parent := ctx_last ?c\<rparr>)
      \<and> (\<forall>m mn. ctx_last ?c = Some m \<longrightarrow> store t m = Some mn \<longrightarrow> store t2 m = Some (mn\<lparr>right := Some a\<rparr>))
      \<and> (\<forall>b. b \<noteq> a \<longrightarrow> Some b \<noteq> ctx_last ?c \<longrightarrow> store t2 b = store t b)"
  proof (cases "ctx_last ?c")
    case None
    then have "?c = []" by (simp add: ctx_last_def split: if_splits)
    then show ?thesis using None by (simp add: heap_defs t1_def)
  next
    case (Some m)
    then have ne: "?c \<noteq> []" by (auto simp: ctx_last_def)
    obtain mn where mn: "store t m = Some mn" "item mn < x"
      using links_max_item [OF L Some big] by auto
    have "m \<in> addrs s" using ctx_last_in [OF Some] by simp
    then have "m \<noteq> a" using anot by auto
    moreover have "\<not> x < item mn" using mn(2) by simp
    ultimately show ?thesis using Some mn ne by (simp add: heap_defs t1_def)
  qed
  then obtain t2 where attach: "(do { t \<leftarrow> set_parent t1 (Some a) (ctx_last ?c);
              (if ctx_last ?c = None then Some (t\<lparr>root := Some a\<rparr>)
               else do { pitem \<leftarrow> fld item t (ctx_last ?c);
                         if x < pitem then set_left t (ctx_last ?c) (Some a)
                         else set_right t (ctx_last ?c) (Some a) }) }) = Some t2"
    and rt2: "root t2 = (if ?c = [] then Some a else root t)"
    and s2a: "store t2 a = Some (nn\<lparr>parent := ctx_last ?c\<rparr>)"
    and s2m: "\<And>m mn. ctx_last ?c = Some m \<Longrightarrow> store t m = Some mn \<Longrightarrow> store t2 m = Some (mn\<lparr>right := Some a\<rparr>)"
    and s2o: "\<And>b. b \<noteq> a \<Longrightarrow> Some b \<noteq> ctx_last ?c \<Longrightarrow> store t2 b = store t b"
    by auto
  have ins: "RB_Insert t a x = InsertFixup t2 (Some a)"
    using new desc attach by (simp add: RB_Insert_def flip: bind_assoc)
  have L2: "links (store t2) None (if ?c = [] then Some a else root t) (plug ?c ?sz)"
  proof (rule links_attach)
    show "links (store t) None (root t) (plug ?c Leaf)" using L by simp
    show "distinct (map fst (inorder (plug ?c Leaf)))" using D by simp
    show "a \<notin> addrs (plug ?c Leaf)" using anot by simp
    show "\<And>b. b \<noteq> a \<Longrightarrow> Some b \<noteq> ctx_last ?c \<Longrightarrow> store t2 b = store t b" by (rule s2o)
    show "\<exists>n'. store t2 a = Some n' \<and> item n' = x \<and> left n' = None \<and> right n' = None
        \<and> parent n' = ctx_par None ?c"
      using s2a by (simp add: nn_def ctx_par_def)
    show "\<And>m nm. ctx_last ?c = Some m \<Longrightarrow> store t m = Some nm \<Longrightarrow> \<exists>nm'. store t2 m = Some nm'
        \<and> item nm' = item nm \<and> left nm' = left nm \<and> parent nm' = parent nm \<and> right nm' = Some a"
      using s2m by auto
  qed
  have io2: "inorder (plug ?c ?sz) = inorder s @ [(a, x)]"
    using inorder_plug [of ?c ?sz] inorder_plug [of ?c Leaf] by simp
  have D2: "distinct (map fst (inorder (plug ?c ?sz)))"
    using D anot unfolding io2 by (auto simp: image_iff)
  have dom2: "store t2 b = None \<longleftrightarrow> (store t b = None \<and> b \<noteq> a)" for b
  proof (cases "b = a")
    case True then show ?thesis using s2a by simp
  next
    case False
    show ?thesis
    proof (cases "Some b = ctx_last ?c")
      case True
      then have "b \<in> addrs s" using ctx_last_in [of ?c b] by simp
      then obtain bn where "store t b = Some bn" using links_live [OF L] by auto
      then show ?thesis using s2m [of b bn] True False by simp
    next
      case False
      then show ?thesis using s2o \<open>b \<noteq> a\<close> by simp
    qed
  qed
  have col2: "fld color t2 (root t2) = Some Black" if "?c \<noteq> []"
  proof -
    have sne: "s \<noteq> Leaf" using that by auto
    then obtain r where r: "root t = Some r" "r \<in> addrs s"
      using links_rootp [OF L] rootp_in by (cases s) auto
    then have c0: "fld color t (Some r) = Some Black" using B by simp
    then obtain rn where rn: "store t r = Some rn" "color rn = Black"
      by (auto simp: heap_defs split: option.splits)
    have "r \<noteq> a" using r anot by auto
    have "\<exists>rn'. store t2 r = Some rn' \<and> color rn' = Black"
    proof (cases "Some r = ctx_last ?c")
      case True
      then show ?thesis using s2m [of r rn] rn by simp
    next
      case False
      then show ?thesis using s2o [of r] \<open>r \<noteq> a\<close> rn by simp
    qed
    then show ?thesis using rt2 that r by (auto simp: heap_defs)
  qed
  have L2': "links (store t2) None (root t2) (plug ?c ?sz)" using L2 rt2 by simp
  from InsertFixup_loop_spine [OF L2' D2 _ col2]
  obtain t3 s' where loop: "InsertFixup_loop t2 (Some a) = Some t3"
    and L3: "links (store t3) None (root t3) s'"
    and io3: "inorder s' = inorder (plug ?c ?sz)"
    and dom3: "\<And>b. store t3 b = None \<longleftrightarrow> store t2 b = None"
    and rt3: "root t3 \<noteq> None"
    by auto
  obtain r3 where r3: "root t3 = Some r3" using rt3 by auto
  have "r3 \<in> addrs s'" using links_rootp [OF L3] r3 rootp_in by metis
  then obtain n3 where n3: "store t3 r3 = Some n3" using links_live [OF L3] by auto
  define t4 where "t4 = t3\<lparr>store := (store t3)(r3 := Some (n3\<lparr>bal := Black\<rparr>))\<rparr>"
  have fixup: "InsertFixup t2 (Some a) = Some t4"
    using loop r3 n3 by (simp add: InsertFixup_def heap_defs t4_def)
  have L4: "links (store t4) None (root t4) s'"
  proof -
    have "links (store t4) None (root t3) s'"
    proof (rule links_cong [OF L3])
      fix b n assume "store t3 b = Some n"
      then show "\<exists>n'. store t4 b = Some n' \<and> same_links n n'"
        using n3 by (auto simp: t4_def same_links_def)
    qed
    then show ?thesis by (simp add: t4_def)
  qed
  have D4: "distinct (map fst (inorder s'))" using D2 io3 by simp
  have "is_tree t4 s'" using L4 D4 by (simp add: is_tree_def tree_at_links)
  moreover have "fld color t4 (root t4) = Some Black" using r3 by (simp add: t4_def heap_defs)
  moreover have "store t4 b = None \<longleftrightarrow> (store t b = None \<and> b \<noteq> a)" for b
    using dom3 [of b] dom2 [of b] n3 by (cases "b = r3") (auto simp: t4_def)
  ultimately show ?thesis using ins fixup io3 io2
    by (intro exI [of _ t4] exI [of _ s']) simp
qed

lemma rootp_plug_Leaf: "rootp (plug c Leaf) = (if c = [] then None else Some (fst (snd (hd c))))"
  by (cases c) auto

lemma AVL_Insert_loop_zero:
  fixes t :: "'a::linorder AVLTree"
  assumes "links (store t) par p (plug c Leaf)" and "c \<noteq> []"
    and "\<forall>e \<in> set c. \<exists>n. store t (fst (snd e)) = Some n \<and> bal n = 0 \<and> item n < x"
    and "store t a = Some an" and "a \<notin> ctx_addrs c" and "ctx_last c = Some m"
  shows "AVL_Insert_loop t (Some a) x p previous bp bpp head = Some (attached t m a, bp, bpp, head)"
  using assms
proof (induction c arbitrary: par p previous)
  case Nil
  then show ?case by simp
next
  case (Cons e c)
  obtain l b xb where e: "e = (l, (b, xb))" by (cases e) auto
  from Cons.prems(1) e obtain n where n: "store t b = Some n" and p: "p = Some b"
    and r: "links (store t) (Some b) (right n) (plug c Leaf)"
    by (auto split: option.splits)
  from Cons.prems(3) e n have n0: "bal n = 0" "item n < x" by auto
  then have nlt: "\<not> x < item n" by simp
  have ba: "b \<noteq> a" using Cons.prems(5) e by auto
  show ?case
  proof (cases "c = []")
    case True
    then have rn: "right n = None" using r by simp
    have m: "m = b" using Cons.prems(6) True e by (simp add: ctx_last_def)
    have "Option.bind (set_right t (Some b) (Some a)) (\<lambda>t. set_parent t (Some a) (Some b))
        = Some (attached t b a)"
      using n Cons.prems(4) ba by (simp add: heap_defs attached_def)
    then show ?thesis using n p n0 nlt rn m
      by (subst AVL_Insert_loop.simps) (simp add: rd_def)
  next
    case False
    then obtain d where rn: "right n = Some d"
      using links_rootp [OF r] by (simp add: rootp_plug_Leaf)
    have m: "ctx_last c = Some m" using Cons.prems(6) False by (simp add: ctx_last_def)
    have "AVL_Insert_loop t (Some a) x (right n) (Some b) bp bpp head = Some (attached t m a, bp, bpp, head)"
      by (rule Cons.IH [OF r False _ Cons.prems(4) _ m]) (use Cons.prems(3,5) in auto)
    then show ?thesis using n p n0 nlt rn
      by (subst AVL_Insert_loop.simps) (simp add: rd_def)
  qed
qed

lemma AVL_Insert_loop_one:
  fixes t :: "'a::linorder AVLTree"
  assumes "links (store t) par p (plug (c2 @ ei # c3) Leaf)" and "c3 \<noteq> []"
    and "\<forall>e \<in> set c2. \<exists>n. store t (fst (snd e)) = Some n \<and> (bal n = 0 \<or> bal n = 1) \<and> item n < x"
    and "\<exists>n. store t (fst (snd ei)) = Some n \<and> bal n = 1 \<and> item n < x"
    and "\<forall>e \<in> set c3. \<exists>n. store t (fst (snd e)) = Some n \<and> bal n = 0 \<and> item n < x"
    and "store t a = Some an" and "a \<notin> ctx_addrs (c2 @ ei # c3)" and "ctx_last c3 = Some m"
  shows "AVL_Insert_loop t (Some a) x p previous bp bpp head
     = Some (attached t m a, Some (fst (snd ei)), ctx_par previous c2, head)"
  using assms
proof (induction c2 arbitrary: par p previous bp bpp)
  case Nil
  obtain l b xb where e: "ei = (l, (b, xb))" by (cases ei) auto
  from Nil.prems(1) e obtain n where n: "store t b = Some n" and p: "p = Some b"
    and r: "links (store t) (Some b) (right n) (plug c3 Leaf)"
    by (auto split: option.splits)
  from Nil.prems(4) e n have n1: "bal n = 1" "item n < x" by auto
  then have nlt: "\<not> x < item n" by simp
  obtain d where rn: "right n = Some d"
    using links_rootp [OF r] Nil.prems(2) by (simp add: rootp_plug_Leaf)
  have "AVL_Insert_loop t (Some a) x (right n) (Some b) (Some b) previous head
      = Some (attached t m a, Some b, previous, head)"
    by (rule AVL_Insert_loop_zero [OF r Nil.prems(2,5,6) _ Nil.prems(8)]) (use Nil.prems(7) in auto)
  then show ?case using n p n1 nlt rn e
    by (subst AVL_Insert_loop.simps) (simp add: rd_def)
next
  case (Cons e c2)
  obtain l b xb where e: "e = (l, (b, xb))" by (cases e) auto
  from Cons.prems(1) e obtain n where n: "store t b = Some n" and p: "p = Some b"
    and r: "links (store t) (Some b) (right n) (plug (c2 @ ei # c3) Leaf)"
    by (auto split: option.splits)
  from Cons.prems(3) e n have n01: "bal n = 0 \<or> bal n = 1" "item n < x" by auto
  then have nlt: "\<not> x < item n" by simp
  obtain d where rn: "right n = Some d"
    using links_rootp [OF r] by (simp add: rootp_plug_Leaf)
  have ih: "AVL_Insert_loop t (Some a) x (right n) (Some b) bp' bpp' head
      = Some (attached t m a, Some (fst (snd ei)), ctx_par (Some b) c2, head)" for bp' bpp'
    by (rule Cons.IH [OF r Cons.prems(2) _ Cons.prems(4,5,6) _ Cons.prems(8)])
      (use Cons.prems(3,7) in auto)
  have cp: "ctx_par (Some b) c2 = ctx_par previous (e # c2)"
    using e by (simp add: ctx_par_def ctx_last_def)
  show ?case using n p n01 nlt rn ih cp
    by (subst AVL_Insert_loop.simps) (auto simp: rd_def)
qed

lemma bumped_store [simp]:
  "store (bumped A t) b = (if b \<in> A then map_option (\<lambda>n. n\<lparr>bal := bal n + 1\<rparr>) (store t b) else store t b)"
  by (simp add: bumped_def)

lemma bumped_root [simp]: "root (bumped A t) = root t"
  by (simp add: bumped_def)

lemma bumped_bumped: "A \<inter> B = {} \<Longrightarrow> bumped A (bumped B t) = bumped (A \<union> B) t"
  unfolding bumped_def
  by (auto simp: fun_eq_iff intro!: arg_cong [where f = "\<lambda>s. t\<lparr>store := s\<rparr>"])

lemma set_bal_bumped:
  "store t b = Some n \<Longrightarrow> set_bal t (Some b) (balanceFactor n + 1) = Some (bumped {b} t)"
  by (auto simp: heap_defs bumped_def fun_eq_iff intro!: arg_cong [where f = "\<lambda>s. t\<lparr>store := s\<rparr>"])

lemma links_bumped: "links (store t) par p s \<Longrightarrow> links (store (bumped A t)) par p s"
  by (erule links_cong) (auto simp: same_links_def)

lemma update_factors_spine:
  fixes t :: "'a::linorder AVLTree"
  assumes "links (store t) par p (plug c (Node Leaf (a, x) Leaf))" and "c \<noteq> []"
    and "\<forall>e \<in> set c. \<exists>n. store t (fst (snd e)) = Some n \<and> item n < x"
    and "distinct (map (\<lambda>e. fst (snd e)) c)" and "a \<notin> ctx_addrs c"
  shows "update_factors t (Some a) x p = Some (bumped (ctx_addrs c) t)"
  using assms
proof (induction c arbitrary: par p t)
  case Nil
  then show ?case by simp
next
  case (Cons e c)
  obtain l b xb where e: "e = (l, (b, xb))" by (cases e) auto
  from Cons.prems(1) e obtain n where n: "store t b = Some n" and p: "p = Some b"
    and r: "links (store t) (Some b) (right n) (plug c (Node Leaf (a, x) Leaf))"
    by (auto split: option.splits)
  from Cons.prems(3) e n have "item n < x" by auto
  then have nlt: "\<not> x < item n" by simp
  have ba: "b \<noteq> a" "b \<notin> ctx_addrs c" using Cons.prems(4,5) e by auto
  have sb: "set_bal t (Some b) (balanceFactor n + 1) = Some (bumped {b} t)"
    by (rule set_bal_bumped [OF n])
  show ?case
  proof (cases "c = []")
    case True
    then have "right n = Some a" using links_rootp [OF r] by simp
    then show ?thesis using n p nlt sb True e
      by (subst update_factors.simps) (simp add: rd_def)
  next
    case False
    then have rn: "right n = Some (fst (snd (hd c)))"
      using links_rootp [OF r] by (simp add: rootp_plug)
    have "fst (snd (hd c)) \<in> ctx_addrs c" using False by (cases c) auto
    then have rna: "right n \<noteq> Some a" using rn Cons.prems(5) by auto
    have "update_factors (bumped {b} t) (Some a) x (right n) = Some (bumped (ctx_addrs c) (bumped {b} t))"
    proof (rule Cons.IH [OF links_bumped [OF r] False])
      show "\<forall>e\<in>set c. \<exists>n. store (bumped {b} t) (fst (snd e)) = Some n \<and> item n < x"
        using Cons.prems(3) ba by auto
      show "distinct (map (\<lambda>e. fst (snd e)) c)" using Cons.prems(4) by simp
      show "a \<notin> ctx_addrs c" using Cons.prems(5) by simp
    qed
    moreover have "bumped (ctx_addrs c) (bumped {b} t) = bumped (ctx_addrs (e # c)) t"
      using ba e by (subst bumped_bumped) (auto simp: Un_commute)
    ultimately show ?thesis using n p nlt sb rna
      by (subst update_factors.simps) (simp add: rd_def)
  qed
qed

lemma AVL_rebalance_run:
  fixes t :: "'a AVLTree"
  assumes x: "store t x = Some xn" "right xn = Some y" "bal xn = 2"
    and y: "store t y = Some yn" "x \<noteq> y" "bal yn = 1"
    and b: "\<And>b. left yn = Some b \<Longrightarrow> (\<exists>bn. store t b = Some bn) \<and> b \<noteq> x \<and> b \<noteq> y"
    and m: "\<And>m. bpp = Some m \<Longrightarrow> (\<exists>mn. store t m = Some mn \<and> left mn \<noteq> Some x)
                 \<and> m \<noteq> x \<and> m \<noteq> y \<and> left yn \<noteq> Some m"
    and par: "parent xn = bpp" and rt: "root t = Some x \<longleftrightarrow> bpp = None"
  shows "\<exists>t'. do { (t, substituteNode) \<leftarrow> Balance t (Some x);
         t \<leftarrow> Some (if root t = Some x then t\<lparr>root := substituteNode\<rparr> else t);
         if bpp \<noteq> None then do {
           t \<leftarrow> set_parent t substituteNode bpp;
           l \<leftarrow> fld left t bpp;
           if l = Some x then set_left t bpp substituteNode
           else set_right t bpp substituteNode }
         else Some t } = Some t'
     \<and> root t' = (if bpp = None then Some y else root t)
     \<and> store t' x = Some (xn\<lparr>right := left yn, parent := Some y, bal := 0\<rparr>)
     \<and> store t' y = Some (yn\<lparr>left := Some x, parent := bpp, bal := 0\<rparr>)
     \<and> (\<forall>b bn. left yn = Some b \<longrightarrow> store t b = Some bn \<longrightarrow> store t' b = Some (bn\<lparr>parent := Some x\<rparr>))
     \<and> (\<forall>m mn. bpp = Some m \<longrightarrow> store t m = Some mn \<longrightarrow> store t' m = Some (mn\<lparr>right := Some y\<rparr>))
     \<and> (\<forall>a. a \<noteq> x \<longrightarrow> a \<noteq> y \<longrightarrow> Some a \<noteq> left yn \<longrightarrow> Some a \<noteq> bpp \<longrightarrow> store t' a = store t a)"
proof (cases "left yn")
  case None
  note yl = None
  show ?thesis
  proof (cases bpp)
    case None
    show ?thesis using x y yl None par rt
      by (simp add: Balance_def AVL_LeftRotate_def heap_defs)
  next
    case (Some m')
    from m [OF Some] obtain mn where mn: "store t m' = Some mn" "left mn \<noteq> Some x" "m' \<noteq> x" "m' \<noteq> y"
      by auto
    show ?thesis using x y yl Some mn par rt
      by (simp add: Balance_def AVL_LeftRotate_def heap_defs)
  qed
next
  case (Some b')
  note yl = Some
  from b [OF Some] obtain bn where bn: "store t b' = Some bn" "b' \<noteq> x" "b' \<noteq> y" by auto
  show ?thesis
  proof (cases bpp)
    case None
    show ?thesis using x y yl None bn par rt
      by (simp add: Balance_def AVL_LeftRotate_def heap_defs)
  next
    case (Some m')
    from m [OF Some] yl obtain mn where mn: "store t m' = Some mn" "left mn \<noteq> Some x" "m' \<noteq> x" "m' \<noteq> y" "m' \<noteq> b'"
      by auto
    show ?thesis using x y yl Some mn bn par rt
      by (simp add: Balance_def AVL_LeftRotate_def heap_defs)
  qed
qed

lemma spine_cases:
  assumes "\<forall>e \<in> set c. P0 e \<or> P1 e" and "c \<noteq> []" and "P0 (last c)"
  shows "(\<forall>e \<in> set c. P0 e) \<or> (\<exists>c1 ei c3. c = c1 @ ei # c3 \<and> P1 ei \<and> c3 \<noteq> [] \<and> (\<forall>e \<in> set c3. P0 e))"
  using assms
proof (induction c)
  case Nil
  then show ?case by simp
next
  case (Cons e c)
  show ?case
  proof (cases "c = []")
    case True
    then show ?thesis using Cons.prems by simp
  next
    case False
    then have "(\<forall>e \<in> set c. P0 e) \<or> (\<exists>c1 ei c3. c = c1 @ ei # c3 \<and> P1 ei \<and> c3 \<noteq> [] \<and> (\<forall>e \<in> set c3. P0 e))"
      using Cons.IH Cons.prems by simp
    then show ?thesis
    proof
      assume all: "\<forall>e \<in> set c. P0 e"
      show ?thesis
      proof (cases "P0 e")
        case True
        then show ?thesis using all by simp
      next
        case False
        then have "P1 e" using Cons.prems(1) by simp
        then have "e # c = [] @ e # c \<and> P1 e \<and> c \<noteq> [] \<and> (\<forall>e \<in> set c. P0 e)"
          using all \<open>c \<noteq> []\<close> by simp
        then show ?thesis by blast
      qed
    next
      assume "\<exists>c1 ei c3. c = c1 @ ei # c3 \<and> P1 ei \<and> c3 \<noteq> [] \<and> (\<forall>e \<in> set c3. P0 e)"
      then obtain c1 ei c3 where "c = c1 @ ei # c3" "P1 ei" "c3 \<noteq> []" "\<forall>e \<in> set c3. P0 e" by auto
      then have "e # c = (e # c1) @ ei # c3 \<and> P1 ei \<and> c3 \<noteq> [] \<and> (\<forall>e \<in> set c3. P0 e)" by simp
      then show ?thesis by blast
    qed
  qed
qed

lemma spine_plug: "spine (plug c s) = c @ spine s"
  by (induction c) auto

lemma spine_addr_in: "e \<in> set (spine s) \<Longrightarrow> fst (snd e) \<in> addrs s"
  by (induction s) auto

lemma distinct_spine: "distinct (map fst (inorder s)) \<Longrightarrow> distinct (map (\<lambda>e. fst (snd e)) (spine s))"
proof (induction s)
  case Leaf
  then show ?case by simp
next
  case (Node l ax r)
  have "fst ax \<notin> addrs r" using Node.prems by auto
  then have "fst ax \<notin> ctx_addrs (spine r)" using spine_addr_in by fastforce
  then show ?case using Node by simp
qed

lemma links_spine_item:
  fixes h :: "addr \<Rightarrow> ('a::linorder, 'm) node option"
  assumes "links h par p s" and "\<forall>y \<in> set_tree (items s). y < x" and "e \<in> set (spine s)"
  shows "\<exists>n. h (fst (snd e)) = Some n \<and> item n < x"
  using assms
proof (induction s arbitrary: par p)
  case Leaf
  then show ?case by simp
next
  case (Node l ax r)
  from Node.prems(1) obtain n where n: "h (fst ax) = Some n"
    and it: "item n = snd ax" and r: "links h (Some (fst ax)) (right n) r"
    by (auto split: option.splits)
  from Node.prems(3) consider "e = (l, ax)" | "e \<in> set (spine r)" by auto
  then show ?case
  proof cases
    case 1
    then show ?thesis using n it Node.prems(2) by simp
  next
    case 2
    from Node.IH(2) [OF r _ 2] Node.prems(2) show ?thesis by simp
  qed
qed

lemma ctx_addrs_sub: "e \<in> set c \<Longrightarrow> fst (snd e) \<in> addrs (plug c Leaf)"
  by (induction c) auto

lemma attached_store:
  "store (attached t m a) b = (if b = a then map_option (\<lambda>n. n\<lparr>parent := Some m\<rparr>) (store t a)
     else if b = m then map_option (\<lambda>n. n\<lparr>right := Some a\<rparr>) (store t m) else store t b)"
  by (simp add: attached_def)

lemma attached_root [simp]: "root (attached t m a) = root t"
  by (simp add: attached_def)

lemma AVL_Insert_max_zero:
  fixes t1 :: "'a::linorder AVLTree"
  assumes L1: "links (store t1) None (root t1) (plug c Leaf)" and ne: "c \<noteq> []"
    and D: "distinct (map fst (inorder (plug c Leaf)))"
    and P: "\<forall>e \<in> set c. \<exists>n. store t1 (fst (snd e)) = Some n \<and> bal n = 0 \<and> item n < x"
    and an: "store t1 a = Some \<lparr>item = x, bal = 0, left = None, right = None, parent = None\<rparr>"
    and anot: "a \<notin> addrs (plug c Leaf)"
  shows "\<exists>t3. do {
       (t, balancePoint, balancePointPredecessor, balanceFactorUpdateHead) \<leftarrow>
          AVL_Insert_loop t1 (Some a) x (root t1) None None None (root t1);
       let balanceFactorUpdateHead = (if balancePoint \<noteq> None then balancePoint else balanceFactorUpdateHead);
       t \<leftarrow> (if balanceFactorUpdateHead \<noteq> None then update_factors t (Some a) x balanceFactorUpdateHead
            else Some t);
       if balancePoint \<noteq> None then do {
         (t, substituteNode) \<leftarrow> Balance t balancePoint;
         t \<leftarrow> Some (if root t = balancePoint then t\<lparr>root := substituteNode\<rparr> else t);
         if balancePointPredecessor \<noteq> None then do {
           t \<leftarrow> set_parent t substituteNode balancePointPredecessor;
           l \<leftarrow> fld left t balancePointPredecessor;
           if l = balancePoint then set_left t balancePointPredecessor substituteNode
           else set_right t balancePointPredecessor substituteNode }
         else Some t }
       else Some t } = Some t3
     \<and> links (store t3) None (root t3) (plug c (Node Leaf (a, x) Leaf))
     \<and> spine_bal t3 (plug c (Node Leaf (a, x) Leaf))
     \<and> (\<forall>b. store t3 b = None \<longleftrightarrow> store t1 b = None)"
proof -
  let ?sz = "Node Leaf (a, x) Leaf"
  obtain m where m: "ctx_last c = Some m" using ne by (simp add: ctx_last_def)
  have min: "m \<in> addrs (plug c Leaf)" by (rule ctx_last_in [OF m])
  then have ma: "m \<noteq> a" using anot by auto
  have anc: "a \<notin> ctx_addrs c" using anot ctx_addrs_sub by fastforce
  define t2 where "t2 = attached t1 m a"
  have rootne: "root t1 \<noteq> None" using links_rootp [OF L1] ne by (simp add: rootp_plug)
  have loop: "AVL_Insert_loop t1 (Some a) x (root t1) None None None (root t1)
      = Some (t2, None, None, root t1)"
    unfolding t2_def by (rule AVL_Insert_loop_zero [OF L1 ne P an anc m])
  have L2: "links (store t2) None (if c = [] then Some a else root t1) (plug c ?sz)"
  proof (rule links_attach [OF L1 D anot])
    show "\<And>b. b \<noteq> a \<Longrightarrow> Some b \<noteq> ctx_last c \<Longrightarrow> store t2 b = store t1 b"
      using m by (auto simp: t2_def attached_store)
    show "\<exists>n'. store t2 a = Some n' \<and> item n' = x \<and> left n' = None \<and> right n' = None
        \<and> parent n' = ctx_par None c"
      using an m ne by (simp add: t2_def attached_store ctx_par_def)
    show "\<And>m nm. ctx_last c = Some m \<Longrightarrow> store t1 m = Some nm \<Longrightarrow> \<exists>nm'. store t2 m = Some nm'
        \<and> item nm' = item nm \<and> left nm' = left nm \<and> parent nm' = parent nm \<and> right nm' = Some a"
      using m ma by (auto simp: t2_def attached_store)
  qed
  then have L2': "links (store t2) None (root t1) (plug c ?sz)" using ne by simp
  have P2: "\<exists>n. store t2 (fst (snd e)) = Some n \<and> bal n = 0 \<and> item n < x" if "e \<in> set c" for e
  proof -
    from P that obtain n where "store t1 (fst (snd e)) = Some n" "bal n = 0" "item n < x" by auto
    moreover have "fst (snd e) \<noteq> a" using that anc by auto
    ultimately show ?thesis by (auto simp: t2_def attached_store)
  qed
  have Dc: "distinct (map (\<lambda>e. fst (snd e)) c)"
    using distinct_spine [OF D] by (simp add: spine_plug)
  define t3 where "t3 = bumped (ctx_addrs c) t2"
  have upd: "update_factors t2 (Some a) x (root t1) = Some t3"
    unfolding t3_def
  proof (rule update_factors_spine [OF L2' ne _ Dc anc])
    show "\<forall>e\<in>set c. \<exists>n. store t2 (fst (snd e)) = Some n \<and> item n < x"
      using P2 by blast
  qed
  have run: "do {
       (t, balancePoint, balancePointPredecessor, balanceFactorUpdateHead) \<leftarrow>
          AVL_Insert_loop t1 (Some a) x (root t1) None None None (root t1);
       let balanceFactorUpdateHead = (if balancePoint \<noteq> None then balancePoint else balanceFactorUpdateHead);
       t \<leftarrow> (if balanceFactorUpdateHead \<noteq> None then update_factors t (Some a) x balanceFactorUpdateHead
            else Some t);
       if balancePoint \<noteq> None then do {
         (t, substituteNode) \<leftarrow> Balance t balancePoint;
         t \<leftarrow> Some (if root t = balancePoint then t\<lparr>root := substituteNode\<rparr> else t);
         if balancePointPredecessor \<noteq> None then do {
           t \<leftarrow> set_parent t substituteNode balancePointPredecessor;
           l \<leftarrow> fld left t balancePointPredecessor;
           if l = balancePoint then set_left t balancePointPredecessor substituteNode
           else set_right t balancePointPredecessor substituteNode }
         else Some t }
       else Some t } = Some t3"
    using loop upd rootne by simp
  have L3: "links (store t3) None (root t3) (plug c ?sz)"
    using links_bumped [OF L2'] by (simp add: t3_def t2_def)
  have SB: "spine_bal t3 (plug c ?sz)"
    unfolding spine_bal_def spine_plug
  proof (intro conjI ballI allI impI)
    fix e assume "e \<in> set (c @ spine ?sz)"
    then consider "e \<in> set c" | "e = (Leaf, (a, x))" by auto
    then show "\<exists>n. store t3 (fst (snd e)) = Some n \<and> (bal n = 0 \<or> bal n = 1)"
    proof cases
      case 1
      from P2 [OF 1] obtain n where "store t2 (fst (snd e)) = Some n" "bal n = 0" by auto
      then show ?thesis using 1 by (simp add: t3_def)
    next
      case 2
      then show ?thesis using an anc by (simp add: t3_def t2_def attached_store)
    qed
  next
    fix m' assume "ctx_last (c @ spine ?sz) = Some m'"
    then have "m' = a" by (simp add: ctx_last_def)
    then show "\<exists>n. store t3 m' = Some n \<and> bal n = 0"
      using an anc by (simp add: t3_def t2_def attached_store)
  qed
  have dom: "store t3 b = None \<longleftrightarrow> store t1 b = None" for b
    by (simp add: t3_def t2_def attached_store)
  show ?thesis using run L3 SB dom by blast
qed

lemma ctx_last_append: "c' \<noteq> [] \<Longrightarrow> ctx_last (c @ c') = ctx_last c'"
  by (simp add: ctx_last_def)

lemma ctx_par_None: "ctx_par None c = ctx_last c"
  by (simp add: ctx_par_def)

lemma AVL_Insert_max_one:
  fixes t1 :: "'a::linorder AVLTree"
  assumes L1: "links (store t1) None (root t1) (plug (c1 @ (li, (ai, xi)) # (lj, (aj, xj)) # c3) Leaf)"
    and D: "distinct (map fst (inorder (plug (c1 @ (li, (ai, xi)) # (lj, (aj, xj)) # c3) Leaf)))"
    and P1: "\<forall>e \<in> set c1. \<exists>n. store t1 (fst (snd e)) = Some n \<and> (bal n = 0 \<or> bal n = 1) \<and> item n < x"
    and Pi: "\<exists>n. store t1 ai = Some n \<and> bal n = 1 \<and> item n < x"
    and P3: "\<forall>e \<in> set ((lj, (aj, xj)) # c3). \<exists>n. store t1 (fst (snd e)) = Some n \<and> bal n = 0 \<and> item n < x"
    and an: "store t1 a = Some \<lparr>item = x, bal = 0, left = None, right = None, parent = None\<rparr>"
    and anot: "a \<notin> addrs (plug (c1 @ (li, (ai, xi)) # (lj, (aj, xj)) # c3) Leaf)"
  shows "\<exists>t5. do {
       (t, balancePoint, balancePointPredecessor, balanceFactorUpdateHead) \<leftarrow>
          AVL_Insert_loop t1 (Some a) x (root t1) None None None (root t1);
       let balanceFactorUpdateHead = (if balancePoint \<noteq> None then balancePoint else balanceFactorUpdateHead);
       t \<leftarrow> (if balanceFactorUpdateHead \<noteq> None then update_factors t (Some a) x balanceFactorUpdateHead
            else Some t);
       if balancePoint \<noteq> None then do {
         (t, substituteNode) \<leftarrow> Balance t balancePoint;
         t \<leftarrow> Some (if root t = balancePoint then t\<lparr>root := substituteNode\<rparr> else t);
         if balancePointPredecessor \<noteq> None then do {
           t \<leftarrow> set_parent t substituteNode balancePointPredecessor;
           l \<leftarrow> fld left t balancePointPredecessor;
           if l = balancePoint then set_left t balancePointPredecessor substituteNode
           else set_right t balancePointPredecessor substituteNode }
         else Some t }
       else Some t } = Some t5
     \<and> links (store t5) None (root t5) (plug c1 (Node (Node li (ai, xi) lj) (aj, xj) (plug c3 (Node Leaf (a, x) Leaf))))
     \<and> spine_bal t5 (plug c1 (Node (Node li (ai, xi) lj) (aj, xj) (plug c3 (Node Leaf (a, x) Leaf))))
     \<and> (\<forall>b. store t5 b = None \<longleftrightarrow> store t1 b = None)"
proof -
  let ?sz = "Node Leaf (a, x) Leaf"
  let ?ei = "(li, (ai, xi))"
  let ?ej = "(lj, (aj, xj))"
  let ?c3 = "?ej # c3"
  let ?c = "c1 @ ?ei # ?c3"
  let ?s5 = "plug c1 (Node (Node li (ai, xi) lj) (aj, xj) (plug c3 ?sz))"
  have ne: "?c \<noteq> []" by simp
  obtain m where m: "ctx_last ?c = Some m" by (simp add: ctx_last_def)
  then have m3: "ctx_last ?c3 = Some m" by (simp add: ctx_last_def)
  have min: "m \<in> addrs (plug ?c Leaf)" by (rule ctx_last_in [OF m])
  then have ma: "m \<noteq> a" using anot by auto
  have anc: "a \<notin> ctx_addrs ?c" using anot ctx_addrs_sub [of _ ?c] by blast
  have Dc: "distinct (map (\<lambda>e. fst (snd e)) ?c)"
    using distinct_spine [OF D] by (simp add: spine_plug)
  \<comment> \<open>the addresses are pairwise different\<close>
  have io: "inorder (plug ?c Leaf) = inorder (plug c1 Leaf) @ inorder li @ (ai, xi) # inorder lj @ (aj, xj) # inorder (plug c3 Leaf)"
    by (simp add: inorder_plug)
  have dis: "distinct (map fst (inorder (plug c1 Leaf)) @ map fst (inorder li) @ ai # map fst (inorder lj) @ aj # map fst (inorder (plug c3 Leaf)))"
    using D io by simp
  have set: "set (map fst (inorder s)) = addrs s" for s :: "(addr \<times> 'a) tree" by simp
  have d1: "ai \<notin> addrs (plug c1 Leaf)" "aj \<notin> addrs (plug c1 Leaf)" "addrs lj \<inter> addrs (plug c1 Leaf) = {}"
    "ai \<notin> addrs lj" "aj \<notin> addrs lj" "ai \<noteq> aj"
    "ai \<notin> addrs (plug c3 Leaf)" "aj \<notin> addrs (plug c3 Leaf)" "addrs lj \<inter> addrs (plug c3 Leaf) = {}"
    "addrs (plug c1 Leaf) \<inter> addrs (plug c3 Leaf) = {}"
    using dis unfolding distinct_append set [symmetric] by (auto simp del: set_map)
  have aparts: "a \<noteq> ai" "a \<noteq> aj" "a \<notin> addrs lj" "a \<notin> addrs li" "a \<notin> addrs (plug c1 Leaf)" "a \<notin> addrs (plug c3 Leaf)"
    using anot unfolding set [symmetric] io by (auto simp del: set_map)
  have c1in: "\<And>e. e \<in> set c1 \<Longrightarrow> fst (snd e) \<in> addrs (plug c1 Leaf)" by (rule ctx_addrs_sub)
  have c3in: "\<And>e. e \<in> set c3 \<Longrightarrow> fst (snd e) \<in> addrs (plug c3 Leaf)" by (rule ctx_addrs_sub)
  have ljin: "\<And>b. rootp lj = Some b \<Longrightarrow> b \<in> addrs lj" by (rule rootp_in)
  define t2 where "t2 = attached t1 m a"
  have rootne: "root t1 \<noteq> None" using links_rootp [OF L1] by (simp add: rootp_plug)
  have P3': "\<forall>e \<in> set ?c3. \<exists>n. store t1 (fst (snd e)) = Some n \<and> bal n = 0 \<and> item n < x"
    using P3 by simp
  have Pi': "\<exists>n. store t1 (fst (snd ?ei)) = Some n \<and> bal n = 1 \<and> item n < x"
    using Pi by simp
  have loop: "AVL_Insert_loop t1 (Some a) x (root t1) None None None (root t1)
      = Some (t2, Some ai, ctx_last c1, root t1)"
    using AVL_Insert_loop_one [OF L1 _ P1 Pi' P3' an anc m3, of None None None "root t1"]
    by (simp add: t2_def ctx_par_None)
  have L2: "links (store t2) None (if ?c = [] then Some a else root t1) (plug ?c ?sz)"
  proof (rule links_attach [OF L1 D anot])
    show "\<And>b. b \<noteq> a \<Longrightarrow> Some b \<noteq> ctx_last ?c \<Longrightarrow> store t2 b = store t1 b"
      using m by (auto simp: t2_def attached_store)
    show "\<exists>n'. store t2 a = Some n' \<and> item n' = x \<and> left n' = None \<and> right n' = None
        \<and> parent n' = ctx_par None ?c"
      using an m by (simp add: t2_def attached_store ctx_par_None)
    show "\<And>m nm. ctx_last ?c = Some m \<Longrightarrow> store t1 m = Some nm \<Longrightarrow> \<exists>nm'. store t2 m = Some nm'
        \<and> item nm' = item nm \<and> left nm' = left nm \<and> parent nm' = parent nm \<and> right nm' = Some a"
      using m ma by (auto simp: t2_def attached_store)
  qed
  then have L2': "links (store t2) None (root t1) (plug ?c ?sz)" by simp
  have keep2: "\<exists>n'. store t2 b = Some n' \<and> bal n' = bal n \<and> item n' = item n"
    if "store t1 b = Some n" for b n
    using that by (auto simp: t2_def attached_store)
  have foc2: "links (store t2) (ctx_par None c1) (Some ai) (plug (?ei # ?c3) ?sz)"
    using links_plug_focus [of "store t2" None "root t1" c1 "plug (?ei # ?c3) ?sz"] L2'
    by (simp add: plug_append)
  define t3 where "t3 = bumped (ctx_addrs (?ei # ?c3)) t2"
  have upd: "update_factors t2 (Some a) x (Some ai) = Some t3"
    unfolding t3_def
  proof (rule update_factors_spine [OF foc2])
    show "?ei # ?c3 \<noteq> []" by simp
    show "\<forall>e\<in>set (?ei # ?c3). \<exists>n. store t2 (fst (snd e)) = Some n \<and> item n < x"
    proof
      fix e assume "e \<in> set (?ei # ?c3)"
      then have "\<exists>n. store t1 (fst (snd e)) = Some n \<and> item n < x"
        using Pi P3 by auto
      then show "\<exists>n. store t2 (fst (snd e)) = Some n \<and> item n < x"
        using keep2 by fastforce
    qed
    show "distinct (map (\<lambda>e. fst (snd e)) (?ei # ?c3))" using Dc by simp
    show "a \<notin> ctx_addrs (?ei # ?c3)" using anc by auto
  qed
  have L3: "links (store t3) None (root t3) (plug c1 (Node li (ai, xi) (Node lj (aj, xj) (plug c3 ?sz))))"
    using links_bumped [OF L2'] by (simp add: t3_def t2_def plug_append)
  have D3: "distinct (map fst (inorder (plug c1 (Node li (ai, xi) (Node lj (aj, xj) (plug c3 ?sz))))))"
  proof -
    have "inorder (plug c1 (Node li (ai, xi) (Node lj (aj, xj) (plug c3 ?sz)))) = inorder (plug ?c Leaf) @ [(a, x)]"
      by (simp add: inorder_plug)
    then show ?thesis using D anot by (simp add: image_iff)
  qed
  have f3: "links (store t3) (ctx_par None c1) (Some ai) (Node li (ai, xi) (Node lj (aj, xj) (plug c3 ?sz)))"
    using links_plug_focus [OF L3] by simp
  from links_node [OF f3] obtain xn where xn: "store t3 ai = Some xn" "parent xn = ctx_last c1"
    "right xn = Some aj" and r3: "links (store t3) (Some ai) (Some aj) (Node lj (aj, xj) (plug c3 ?sz))"
    by (auto simp: ctx_par_None)
  from links_node [OF r3] obtain yn where yn: "store t3 aj = Some yn" "left yn = rootp lj"
    and llj: "links (store t3) (Some aj) (rootp lj) lj"
    by auto
  have bx: "bal xn = 2"
  proof -
    from Pi obtain ni where "store t1 ai = Some ni" "bal ni = 1" by auto
    from keep2 [OF this(1)] this(2) obtain ni' where "store t2 ai = Some ni'" "bal ni' = 1" by auto
    then show ?thesis using xn(1) by (auto simp: t3_def)
  qed
  have byj: "bal yn = 1"
  proof -
    from P3 obtain nj where "store t1 aj = Some nj" "bal nj = 0" by auto
    from keep2 [OF this(1)] this(2) obtain nj' where "store t2 aj = Some nj'" "bal nj' = 0" by auto
    then show ?thesis using yn(1) by (auto simp: t3_def)
  qed
  have pb: "(\<exists>bn. store t3 b = Some bn) \<and> b \<noteq> ai \<and> b \<noteq> aj" if "left yn = Some b" for b
  proof -
    have bin: "b \<in> addrs lj" using that yn(2) ljin by simp
    from links_live [OF llj bin] have "\<exists>bn. store t3 b = Some bn" by auto
    moreover have "b \<noteq> ai" "b \<noteq> aj" using bin d1 by auto
    ultimately show ?thesis by simp
  qed
  have pm: "(\<exists>mn. store t3 m' = Some mn \<and> left mn \<noteq> Some ai) \<and> m' \<noteq> ai \<and> m' \<noteq> aj \<and> left yn \<noteq> Some m'"
    if "ctx_last c1 = Some m'" for m'
  proof -
    from links_ctx_last_node [OF L3 that]
    obtain mn and lm :: "(addr \<times> 'a) tree" where mn: "store t3 m' = Some mn" "left mn = rootp lm"
      "addrs lm \<subseteq> addrs (plug c1 Leaf)" "m' \<in> addrs (plug c1 Leaf)"
      by auto
    have "left mn \<noteq> Some ai"
    proof
      assume "left mn = Some ai"
      then have "ai \<in> addrs lm" using mn(2) rootp_in by metis
      then show False using mn(3) d1(1) by auto
    qed
    moreover have "m' \<noteq> ai" "m' \<noteq> aj" using mn(4) d1 by auto
    moreover have "left yn \<noteq> Some m'"
    proof
      assume "left yn = Some m'"
      then have "m' \<in> addrs lj" using yn(2) ljin by simp
      then show False using mn(4) d1(3) by auto
    qed
    ultimately show ?thesis using mn(1) by simp
  qed
  have rt3: "root t3 = Some ai \<longleftrightarrow> ctx_last c1 = None"
  proof (cases "c1 = []")
    case True
    then show ?thesis using links_rootp [OF L3] by simp
  next
    case False
    then have "fst (snd (hd c1)) \<noteq> ai" using hd_in_plug [OF False] d1(1) by auto
    then show ?thesis using links_rootp [OF L3] False by (simp add: rootp_plug ctx_last_def)
  qed
  from AVL_rebalance_run [OF xn(1,3) bx yn(1) d1(6) byj pb pm xn(2) rt3]
  obtain t5 where reb: "do { (t, substituteNode) \<leftarrow> Balance t3 (Some ai);
         t \<leftarrow> Some (if root t = Some ai then t\<lparr>root := substituteNode\<rparr> else t);
         if ctx_last c1 \<noteq> None then do {
           t \<leftarrow> set_parent t substituteNode (ctx_last c1);
           l \<leftarrow> fld left t (ctx_last c1);
           if l = Some ai then set_left t (ctx_last c1) substituteNode
           else set_right t (ctx_last c1) substituteNode }
         else Some t } = Some t5"
     and rt5: "root t5 = (if ctx_last c1 = None then Some aj else root t3)"
     and s5x: "store t5 ai = Some (xn\<lparr>right := left yn, parent := Some aj, bal := 0\<rparr>)"
     and s5y: "store t5 aj = Some (yn\<lparr>left := Some ai, parent := ctx_last c1, bal := 0\<rparr>)"
     and s5b: "\<And>b bn. left yn = Some b \<Longrightarrow> store t3 b = Some bn \<Longrightarrow> store t5 b = Some (bn\<lparr>parent := Some ai\<rparr>)"
     and s5m: "\<And>m mn. ctx_last c1 = Some m \<Longrightarrow> store t3 m = Some mn \<Longrightarrow> store t5 m = Some (mn\<lparr>right := Some aj\<rparr>)"
     and s5o: "\<And>a. a \<noteq> ai \<Longrightarrow> a \<noteq> aj \<Longrightarrow> Some a \<noteq> left yn \<Longrightarrow> Some a \<noteq> ctx_last c1 \<Longrightarrow> store t5 a = store t3 a"
    by blast
  have run: "do {
       (t, balancePoint, balancePointPredecessor, balanceFactorUpdateHead) \<leftarrow>
          AVL_Insert_loop t1 (Some a) x (root t1) None None None (root t1);
       let balanceFactorUpdateHead = (if balancePoint \<noteq> None then balancePoint else balanceFactorUpdateHead);
       t \<leftarrow> (if balanceFactorUpdateHead \<noteq> None then update_factors t (Some a) x balanceFactorUpdateHead
            else Some t);
       if balancePoint \<noteq> None then do {
         (t, substituteNode) \<leftarrow> Balance t balancePoint;
         t \<leftarrow> Some (if root t = balancePoint then t\<lparr>root := substituteNode\<rparr> else t);
         if balancePointPredecessor \<noteq> None then do {
           t \<leftarrow> set_parent t substituteNode balancePointPredecessor;
           l \<leftarrow> fld left t balancePointPredecessor;
           if l = balancePoint then set_left t balancePointPredecessor substituteNode
           else set_right t balancePointPredecessor substituteNode }
         else Some t }
       else Some t } = Some t5"
    using loop upd reb by simp
  have L5: "links (store t5) None (if c1 = [] then Some aj else root t3) ?s5"
  proof (rule links_rotate_left [OF L3 D3])
    show "\<And>a'. a' \<noteq> ai \<Longrightarrow> a' \<noteq> aj \<Longrightarrow> Some a' \<noteq> rootp lj \<Longrightarrow> Some a' \<noteq> ctx_last c1
        \<Longrightarrow> store t5 a' = store t3 a'"
      using s5o yn(2) by simp
    show "\<And>n1. store t3 ai = Some n1 \<Longrightarrow> \<exists>n1'. store t5 ai = Some n1' \<and> item n1' = item n1
        \<and> left n1' = left n1 \<and> right n1' = rootp lj \<and> parent n1' = Some aj"
      using s5x xn yn(2) by simp
    show "\<And>n2. store t3 aj = Some n2 \<Longrightarrow> \<exists>n2'. store t5 aj = Some n2' \<and> item n2' = item n2
        \<and> left n2' = Some ai \<and> right n2' = right n2 \<and> parent n2' = ctx_par None c1"
      using s5y yn by (simp add: ctx_par_None)
    show "\<And>b nb. rootp lj = Some b \<Longrightarrow> store t3 b = Some nb \<Longrightarrow> \<exists>nb'. store t5 b = Some nb'
        \<and> item nb' = item nb \<and> left nb' = left nb \<and> right nb' = right nb \<and> parent nb' = Some ai"
      using s5b yn(2) by simp
    show "\<And>m nm. ctx_last c1 = Some m \<Longrightarrow> store t3 m = Some nm \<Longrightarrow> \<exists>nm'. store t5 m = Some nm'
        \<and> item nm' = item nm \<and> left nm' = left nm \<and> parent nm' = parent nm \<and> right nm' = Some aj"
      using s5m by simp
  qed
  have "root t5 = (if c1 = [] then Some aj else root t3)"
    using rt5 by (auto simp: ctx_last_def)
  then have L5': "links (store t5) None (root t5) ?s5" using L5 by simp
  have keep5: "\<exists>n'. store t5 b = Some n' \<and> bal n' = bal n"
    if "store t3 b = Some n" "b \<noteq> ai" "b \<noteq> aj" "b \<notin> addrs lj" for b n
  proof (cases "Some b = ctx_last c1")
    case True
    then show ?thesis using s5m [of b n] that by simp
  next
    case False
    have "Some b \<noteq> left yn" using that(4) yn(2) ljin by auto
    then show ?thesis using s5o [of b] that False by simp
  qed
  have SB: "spine_bal t5 ?s5"
    unfolding spine_bal_def spine_plug
  proof (intro conjI ballI allI impI)
    fix e assume "e \<in> set (c1 @ spine (Node (Node li (ai, xi) lj) (aj, xj) (plug c3 ?sz)))"
    then consider "e \<in> set c1" | "fst (snd e) = aj" | "e \<in> set c3" | "fst (snd e) = a"
      by (auto simp: spine_plug)
    then show "\<exists>n. store t5 (fst (snd e)) = Some n \<and> (bal n = 0 \<or> bal n = 1)"
    proof cases
      case 1
      let ?b = "fst (snd e)"
      have bin: "?b \<in> addrs (plug c1 Leaf)" using c1in [OF 1] .
      from P1 1 obtain n where "store t1 ?b = Some n" "bal n = 0 \<or> bal n = 1" by auto
      from keep2 [OF this(1)] this(2) obtain n' where n': "store t2 ?b = Some n'" "bal n' = 0 \<or> bal n' = 1"
        by auto
      have nb: "?b \<noteq> ai" "?b \<noteq> aj" "?b \<notin> addrs lj" "?b \<notin> addrs (plug c3 Leaf)"
        using bin d1 by auto
      then have "?b \<notin> ctx_addrs c3" using c3in by auto
      then have "store t3 ?b = Some n'" using n' nb by (auto simp: t3_def)
      from keep5 [OF this nb(1,2,3)] n'(2) show ?thesis by auto
    next
      case 2
      then show ?thesis using s5y by simp
    next
      case 3
      let ?b = "fst (snd e)"
      have bin: "?b \<in> addrs (plug c3 Leaf)" using c3in [OF 3] .
      from P3 3 obtain n where "store t1 ?b = Some n" "bal n = 0" by auto
      from keep2 [OF this(1)] this(2) obtain n' where n': "store t2 ?b = Some n'" "bal n' = 0"
        by auto
      have nb: "?b \<noteq> ai" "?b \<noteq> aj" "?b \<notin> addrs lj"
        using bin d1 by auto
      have "?b \<in> ctx_addrs c3" using 3 by auto
      then have "store t3 ?b = Some (n'\<lparr>bal := 1\<rparr>)" using n' by (simp add: t3_def)
      from keep5 [OF this nb] show ?thesis by auto
    next
      case 4
      have "a \<notin> ctx_addrs c3" using aparts c3in by auto
      then have "store t3 a = Some \<lparr>item = x, bal = 0, left = None, right = None, parent = Some m\<rparr>"
        using an aparts by (simp add: t3_def t2_def attached_store)
      from keep5 [OF this aparts(1,2,3)] show ?thesis using 4 by auto
    qed
  next
    fix m' assume "ctx_last (c1 @ spine (Node (Node li (ai, xi) lj) (aj, xj) (plug c3 ?sz))) = Some m'"
    then have "m' = a" by (simp add: ctx_last_def spine_plug)
    moreover have "a \<notin> ctx_addrs c3" using aparts c3in by auto
    then have "store t3 a = Some \<lparr>item = x, bal = 0, left = None, right = None, parent = Some m\<rparr>"
      using an aparts by (simp add: t3_def t2_def attached_store)
    from keep5 [OF this aparts(1,2,3)] have "\<exists>n. store t5 a = Some n \<and> bal n = 0" by auto
    ultimately show "\<exists>n. store t5 m' = Some n \<and> bal n = 0" by simp
  qed
  have dom53: "store t5 b = None \<longleftrightarrow> store t3 b = None" for b
  proof -
    consider "b = ai" | "b = aj" | "b \<noteq> ai" "b \<noteq> aj" "Some b = left yn"
      | "b \<noteq> ai" "b \<noteq> aj" "Some b \<noteq> left yn" "Some b = ctx_last c1"
      | "b \<noteq> ai" "b \<noteq> aj" "Some b \<noteq> left yn" "Some b \<noteq> ctx_last c1"
      by metis
    then show ?thesis
    proof cases
      case 1 then show ?thesis using s5x xn by simp
    next
      case 2 then show ?thesis using s5y yn by simp
    next
      case 3
      from pb [of b] 3 obtain bn where "store t3 b = Some bn" by auto
      then show ?thesis using s5b [of b bn] 3 by simp
    next
      case 4
      from pm [of b] 4 obtain mn where "store t3 b = Some mn" by auto
      then show ?thesis using s5m [of b mn] 4 by simp
    next
      case 5 then show ?thesis using s5o [of b] by simp
    qed
  qed
  have dom: "store t5 b = None \<longleftrightarrow> store t1 b = None" for b
    using dom53 [of b] by (simp add: t3_def t2_def attached_store)
  show ?thesis using run L5' SB dom by blast
qed

lemma AVL_Insert_max:
  fixes t :: "'a::linorder AVLTree"
  assumes T: "is_tree t s" and SB: "spine_bal t s"
    and big: "\<forall>y \<in> set_tree (items s). y < x" and fresh: "store t a = None"
  shows "\<exists>t' s'. AVL_Insert t a x = Some t' \<and> is_tree t' s' \<and> inorder s' = inorder s @ [(a, x)]
      \<and> spine_bal t' s' \<and> (\<forall>b. store t' b = None \<longleftrightarrow> (store t b = None \<and> b \<noteq> a))"
proof -
  let ?c = "spine s"
  let ?sz = "Node Leaf (a, x) Leaf"
  have L: "links (store t) None (root t) s" and D: "distinct (map fst (inorder s))"
    using T by (simp_all add: is_tree_def tree_at_links)
  have anot: "a \<notin> addrs s"
  proof
    assume "a \<in> addrs s"
    from links_live [OF L this] fresh show False by simp
  qed
  define nn :: "('a, int) node" where "nn = \<lparr>item = x, bal = 0, left = None, right = None, parent = None\<rparr>"
  define t1 where "t1 = t\<lparr>store := (store t)(a := Some nn)\<rparr>"
  have new: "new_node t a x 0 = Some t1" using fresh by (simp add: new_node_def t1_def nn_def)
  have rt1: "root t1 = root t" by (simp add: t1_def)
  have an: "store t1 a = Some \<lparr>item = x, bal = 0, left = None, right = None, parent = None\<rparr>"
    by (simp add: t1_def nn_def)
  have dom1: "store t1 b = None \<longleftrightarrow> (store t b = None \<and> b \<noteq> a)" for b
    by (simp add: t1_def)
  have L1: "links (store t1) None (root t1) s"
  proof -
    have "links (store t1) None (root t) s"
    proof (rule links_frame [OF L])
      fix b assume "b \<in> addrs s"
      then have "b \<noteq> a" using anot by auto
      then show "store t1 b = store t b" by (simp add: t1_def)
    qed
    then show ?thesis by (simp add: t1_def)
  qed
  show ?thesis
  proof (cases "s = Leaf")
    case True
    then have "root t = None" using L by simp
    then have ins: "AVL_Insert t a x = Some (t1\<lparr>root := Some a\<rparr>)"
      using new rt1 by (simp add: AVL_Insert_def)
    have "is_tree (t1\<lparr>root := Some a\<rparr>) ?sz"
      by (simp add: is_tree_def t1_def nn_def)
    moreover have "spine_bal (t1\<lparr>root := Some a\<rparr>) ?sz"
      by (simp add: spine_bal_def t1_def nn_def ctx_last_def)
    ultimately show ?thesis using ins True dom1
      by (intro exI [of _ "t1\<lparr>root := Some a\<rparr>"] exI [of _ ?sz]) simp
  next
    case False
    then have ne: "?c \<noteq> []" by (cases s) auto
    have rootne: "root t1 \<noteq> None" using links_rootp [OF L1] False by (cases s) auto
    have inb: "\<And>e. e \<in> set ?c \<Longrightarrow> store t1 (fst (snd e)) = store t (fst (snd e))"
      using spine_addr_in anot by (fastforce simp: t1_def)
    have P: "\<exists>n. store t1 (fst (snd e)) = Some n \<and> (bal n = 0 \<or> bal n = 1) \<and> item n < x"
      if "e \<in> set ?c" for e
    proof -
      from SB that obtain n where n: "store t (fst (snd e)) = Some n" "bal n = 0 \<or> bal n = 1"
        unfolding spine_bal_def by blast
      from links_spine_item [OF L big that] n have "item n < x" by auto
      then show ?thesis using n inb [OF that] by simp
    qed
    have last0: "\<exists>n. store t1 (fst (snd (last ?c))) = Some n \<and> bal n = 0"
    proof -
      have "ctx_last ?c = Some (fst (snd (last ?c)))" using ne by (simp add: ctx_last_def)
      with SB obtain n where "store t (fst (snd (last ?c))) = Some n" "bal n = 0"
        unfolding spine_bal_def by blast
      then show ?thesis using inb [of "last ?c"] ne by simp
    qed
    let ?P0 = "\<lambda>e. \<exists>n. store t1 (fst (snd e)) = Some n \<and> bal n = 0"
    let ?P1 = "\<lambda>e. \<exists>n. store t1 (fst (snd e)) = Some n \<and> bal n = 1"
    have "\<forall>e \<in> set ?c. ?P0 e \<or> ?P1 e" using P by blast
    from spine_cases [of ?c ?P0 ?P1, OF this ne last0]
    consider (zero) "\<forall>e \<in> set ?c. ?P0 e"
      | (one) c1 ei c3 where "?c = c1 @ ei # c3" "?P1 ei" "c3 \<noteq> []" "\<forall>e \<in> set c3. ?P0 e"
      by blast
    then have "\<exists>t' s'. do {
       (t, balancePoint, balancePointPredecessor, balanceFactorUpdateHead) \<leftarrow>
          AVL_Insert_loop t1 (Some a) x (root t1) None None None (root t1);
       let balanceFactorUpdateHead = (if balancePoint \<noteq> None then balancePoint else balanceFactorUpdateHead);
       t \<leftarrow> (if balanceFactorUpdateHead \<noteq> None then update_factors t (Some a) x balanceFactorUpdateHead
            else Some t);
       if balancePoint \<noteq> None then do {
         (t, substituteNode) \<leftarrow> Balance t balancePoint;
         t \<leftarrow> Some (if root t = balancePoint then t\<lparr>root := substituteNode\<rparr> else t);
         if balancePointPredecessor \<noteq> None then do {
           t \<leftarrow> set_parent t substituteNode balancePointPredecessor;
           l \<leftarrow> fld left t balancePointPredecessor;
           if l = balancePoint then set_left t balancePointPredecessor substituteNode
           else set_right t balancePointPredecessor substituteNode }
         else Some t }
       else Some t } = Some t'
      \<and> links (store t') None (root t') s' \<and> inorder s' = inorder s @ [(a, x)]
      \<and> spine_bal t' s' \<and> (\<forall>b. store t' b = None \<longleftrightarrow> store t1 b = None)"
    proof cases
      case zero
      have P0: "\<forall>e \<in> set ?c. \<exists>n. store t1 (fst (snd e)) = Some n \<and> bal n = 0 \<and> item n < x"
        using zero P by fastforce
      have io: "inorder (plug ?c ?sz) = inorder s @ [(a, x)]"
        using inorder_plug [of ?c ?sz] inorder_plug [of ?c Leaf] by simp
      from AVL_Insert_max_zero [of t1 ?c x a, OF _ ne _ P0 an] L1 D anot io
      show ?thesis by auto
    next
      case one
      obtain li ai xi where ei: "ei = (li, (ai, xi))" by (cases ei) auto
      obtain lj aj xj c3' where c3: "c3 = (lj, (aj, xj)) # c3'" using one(3) by (cases c3) auto
      let ?c' = "c1 @ (li, (ai, xi)) # (lj, (aj, xj)) # c3'"
      let ?s5 = "plug c1 (Node (Node li (ai, xi) lj) (aj, xj) (plug c3' ?sz))"
      have c: "?c = ?c'" using one(1) ei c3 by simp
      have s: "plug ?c' Leaf = s" using c plug_spine [of s] by simp
      have P1: "\<forall>e \<in> set c1. \<exists>n. store t1 (fst (snd e)) = Some n \<and> (bal n = 0 \<or> bal n = 1) \<and> item n < x"
        using P c by simp
      have Pi: "\<exists>n. store t1 ai = Some n \<and> bal n = 1 \<and> item n < x"
        using P [of ei] one(2) c ei by auto
      have P3: "\<forall>e \<in> set ((lj, (aj, xj)) # c3'). \<exists>n. store t1 (fst (snd e)) = Some n \<and> bal n = 0 \<and> item n < x"
      proof
        fix e assume e: "e \<in> set ((lj, (aj, xj)) # c3')"
        then have "e \<in> set ?c" using c by auto
        from P [OF this] one(4) e c3 show "\<exists>n. store t1 (fst (snd e)) = Some n \<and> bal n = 0 \<and> item n < x"
          by fastforce
      qed
      have io: "inorder ?s5 = inorder s @ [(a, x)]"
      proof -
        have "inorder ?s5 = inorder (plug ?c' Leaf) @ [(a, x)]" by (simp add: inorder_plug)
        then show ?thesis using s by simp
      qed
      from AVL_Insert_max_one [of t1 c1 li ai xi lj aj xj c3' x a, OF _ _ P1 Pi P3 an] L1 D anot s io
      show ?thesis by auto
    qed
    then obtain t' s' where run: "do {
       (t, balancePoint, balancePointPredecessor, balanceFactorUpdateHead) \<leftarrow>
          AVL_Insert_loop t1 (Some a) x (root t1) None None None (root t1);
       let balanceFactorUpdateHead = (if balancePoint \<noteq> None then balancePoint else balanceFactorUpdateHead);
       t \<leftarrow> (if balanceFactorUpdateHead \<noteq> None then update_factors t (Some a) x balanceFactorUpdateHead
            else Some t);
       if balancePoint \<noteq> None then do {
         (t, substituteNode) \<leftarrow> Balance t balancePoint;
         t \<leftarrow> Some (if root t = balancePoint then t\<lparr>root := substituteNode\<rparr> else t);
         if balancePointPredecessor \<noteq> None then do {
           t \<leftarrow> set_parent t substituteNode balancePointPredecessor;
           l \<leftarrow> fld left t balancePointPredecessor;
           if l = balancePoint then set_left t balancePointPredecessor substituteNode
           else set_right t balancePointPredecessor substituteNode }
         else Some t }
       else Some t } = Some t'"
      and L': "links (store t') None (root t') s'" and io': "inorder s' = inorder s @ [(a, x)]"
      and SB': "spine_bal t' s'" and dom': "\<And>b. store t' b = None \<longleftrightarrow> store t1 b = None"
      by blast
    obtain r where "root t1 = Some r" using rootne by auto
    then have "AVL_Insert t a x = do {
       (t, balancePoint, balancePointPredecessor, balanceFactorUpdateHead) \<leftarrow>
          AVL_Insert_loop t1 (Some a) x (root t1) None None None (root t1);
       let balanceFactorUpdateHead = (if balancePoint \<noteq> None then balancePoint else balanceFactorUpdateHead);
       t \<leftarrow> (if balanceFactorUpdateHead \<noteq> None then update_factors t (Some a) x balanceFactorUpdateHead
            else Some t);
       if balancePoint \<noteq> None then do {
         (t, substituteNode) \<leftarrow> Balance t balancePoint;
         t \<leftarrow> Some (if root t = balancePoint then t\<lparr>root := substituteNode\<rparr> else t);
         if balancePointPredecessor \<noteq> None then do {
           t \<leftarrow> set_parent t substituteNode balancePointPredecessor;
           l \<leftarrow> fld left t balancePointPredecessor;
           if l = balancePoint then set_left t balancePointPredecessor substituteNode
           else set_right t balancePointPredecessor substituteNode }
         else Some t }
       else Some t }"
      using new by (simp add: AVL_Insert_def)
    then have ins: "AVL_Insert t a x = Some t'"
      using run by simp
    have D': "distinct (map fst (inorder s'))" using D anot io' by (simp add: image_iff)
    have "is_tree t' s'" using L' D' by (simp add: is_tree_def tree_at_links)
    then show ?thesis using ins io' SB' dom' dom1
      by (intro exI [of _ t'] exI [of _ s']) simp
  qed
qed

lemma chain_append: "chain t p xs q' \<Longrightarrow> chain t q' ys q \<Longrightarrow> chain t p (xs @ ys) q"
  by (induction xs arbitrary: p) (auto split: option.splits)

lemma chain_tree:
  "tree_at (store t) par p s \<Longrightarrow> s \<noteq> Leaf \<Longrightarrow> succ_up t p = Some q \<Longrightarrow>
   chain t (first_addr s) (inorder s) q"
proof (induction s arbitrary: par p q)
  case Leaf
  then show ?case by simp
next
  case (Node l ax r)
  obtain a x where ax: "ax = (a, x)" by (cases ax)
  from Node.prems(1) ax obtain n where n: "store t a = Some n" and p: "p = Some a"
    and item: "item n = x" and par: "parent n = par"
    and l: "tree_at (store t) (Some a) (left n) l"
    and r: "tree_at (store t) (Some a) (right n) r"
    and disj: "a \<notin> addrs l" "a \<notin> addrs r" "addrs l \<inter> addrs r = {}"
    by (auto split: option.splits)
  have ln: "left n = rootp l" and rn: "right n = rootp r"
    using l r tree_at_rootp by blast+
  have from_a: "chain t (Some a) ((a, x) # inorder r) q"
  proof (cases "r = Leaf")
    case True
    then have "right n = None" using rn by simp
    then have "incr t (Some a) = Some q"
      using n Node.prems(3) p by (simp add: incr_def rd_def succ_up_def)
    then show ?thesis using n item True by simp
  next
    case False
    then obtain b where b: "rootp r = Some b" by (cases r) auto
    obtain m where m: "store t b = Some m" "parent m = Some a"
      using tree_at_root_node r rn b by fastforce
    have "succ_up t (Some b) = succ_up t (Some a)"
      using succ_up_right_child n rn b m by metis
    then have q': "succ_up t (right n) = Some q" using Node.prems(3) p rn b by simp
    have ih: "chain t (first_addr r) (inorder r) q"
      using Node.IH(2) [OF r False q'] .
    have "incr t (Some a) = Some (first_addr r)"
      using n rn b descend_left_tree [OF r False] by (simp add: incr_def rd_def)
    then show ?thesis using n item ih by simp
  qed
  show ?case
  proof (cases "l = Leaf")
    case True
    then show ?thesis using from_a ax by simp
  next
    case False
    then obtain b where b: "rootp l = Some b" by (cases l) auto
    obtain m where m: "store t b = Some m" "parent m = Some a"
      using tree_at_root_node l ln b by fastforce
    have "b \<in> addrs l" using b by (cases l) auto
    then have "right n \<noteq> Some b"
      using rn disj by (cases r) auto
    then have "succ_up t (left n) = Some (Some a)"
      using succ_up_left_child n ln b m by metis
    from Node.IH(1) [OF l False this]
    have "chain t (first_addr l) (inorder l) (Some a)" .
    from chain_append [OF this from_a] show ?thesis using ax False by simp
  qed
qed

lemma chain_is_tree:
  assumes "is_tree t s"
  shows "\<exists>p. begin_it t = Some p \<and> chain t p (inorder s) None"
proof (cases "s = Leaf")
  case True
  then have "root t = None" using assms by (simp add: is_tree_def)
  then show ?thesis using True
    by (simp add: begin_it_def ConstIterator_def)
next
  case False
  then obtain a where a: "rootp s = Some a" by (cases s) auto
  have rt: "root t = Some a" using assms tree_at_rootp a unfolding is_tree_def by fastforce
  obtain n where n: "store t a = Some n" "parent n = None"
    using tree_at_root_node assms rt unfolding is_tree_def by fastforce
  have "succ_up t (root t) = Some None"
    using n rt unfolding succ_up_def by (subst ascend_right.simps) (simp add: rd_def fld_def)
  from chain_tree [OF assms [unfolded is_tree_def] False this]
  have "chain t (first_addr s) (inorder s) None" .
  moreover have "begin_it t = Some (first_addr s)"
    using descend_left_tree [OF assms [unfolded is_tree_def] False] rt
    by (simp add: begin_it_def ConstIterator_def)
  ultimately show ?thesis by simp
qed

lemma Intersect_loop_chain:
  fixes I :: "('a::linorder, 'm) tree_obj \<Rightarrow> 'a list \<Rightarrow> addr \<Rightarrow> bool"
    and t :: "('a, 'm) tree_obj" and other :: "('b, 'k) tree_obj" and cl :: "'a \<Rightarrow> 'c::linorder"
  assumes ins: "\<And>res zs k x. I res zs k \<Longrightarrow> (\<forall>z \<in> set zs. z < x)
      \<Longrightarrow> \<exists>res'. Insert res k x = Some res' \<and> I res' (zs @ [x]) (Suc k)"
  shows "chain t lp xs None \<Longrightarrow> chain other rp ys None \<Longrightarrow> I res zs k
    \<Longrightarrow> sorted_wrt (<) (zs @ map snd xs)
    \<Longrightarrow> \<exists>res' k'. Intersect_loop cl cr Insert t other lp rp res k = Some res'
          \<and> I res' (zs @ isect cl cr (map snd xs) (map snd ys)) k'"
proof (induction "length xs + length ys" arbitrary: xs ys lp rp res zs k rule: less_induct)
  case less
  show ?case
  proof (cases xs)
    case Nil
    then have "lp = None" using less.prems(1) by simp
    then show ?thesis using Nil less.prems(3)
      by (subst Intersect_loop.simps) (auto simp: end_it_def ConstIterator_def)
  next
    case (Cons ax xs')
    note xs = Cons
    obtain a x where ax: "ax = (a, x)" by (cases ax)
    from less.prems(1) xs ax obtain n p' where l: "lp = Some a" "store t a = Some n" "item n = x"
      "incr t (Some a) = Some p'" "chain t p' xs' None"
      by (auto split: option.splits)
    show ?thesis
    proof (cases ys)
      case Nil
      then have "rp = None" using less.prems(2) by simp
      then show ?thesis using Nil xs less.prems(3)
        by (subst Intersect_loop.simps) (auto simp: end_it_def ConstIterator_def)
    next
      case (Cons by' ys')
      note ys = Cons
      obtain b y where byj: "by' = (b, y)" by (cases by')
      from less.prems(2) ys byj obtain m q' where r: "rp = Some b" "store other b = Some m" "item m = y"
        "incr other (Some b) = Some q'" "chain other q' ys' None"
        by (auto split: option.splits)
      have unf: "Intersect_loop cl cr Insert t other lp rp res k =
         (if cl x = cr y then do {
            intersectionTree \<leftarrow> Insert res k x;
            Intersect_loop cl cr Insert t other p' q' intersectionTree (Suc k) }
          else if cl x < cr y then Intersect_loop cl cr Insert t other p' rp res k
          else Intersect_loop cl cr Insert t other lp q' res k)"
        using l r by (subst Intersect_loop.simps) (simp add: end_it_def ConstIterator_def fld_def rd_def)
      consider (eq) "cl x = cr y" | (lt) "cl x \<noteq> cr y" "cl x < cr y" | (gt) "cl x \<noteq> cr y" "\<not> cl x < cr y"
        by blast
      then show ?thesis
      proof cases
        case eq
        have "\<forall>z \<in> set zs. z < x" using less.prems(4) xs ax by (simp add: sorted_wrt_append)
        from ins [OF less.prems(3) this] obtain res1 where res1: "Insert res k x = Some res1"
          "I res1 (zs @ [x]) (Suc k)" by blast
        have "sorted_wrt (<) ((zs @ [x]) @ map snd xs')" using less.prems(4) xs ax by simp
        from less.hyps [OF _ l(5) r(5) res1(2) this] xs ys
        obtain res' k' where "Intersect_loop cl cr Insert t other p' q' res1 (Suc k) = Some res'"
          "I res' ((zs @ [x]) @ isect cl cr (map snd xs') (map snd ys')) k'" by auto
        then show ?thesis using unf eq res1(1) xs ys ax byj by auto
      next
        case lt
        have "sorted_wrt (<) (zs @ map snd xs')" using less.prems(4) xs by (simp add: sorted_wrt_append)
        from less.hyps [OF _ l(5) less.prems(2,3) this] xs
        obtain res' k' where "Intersect_loop cl cr Insert t other p' rp res k = Some res'"
          "I res' (zs @ isect cl cr (map snd xs') (map snd ys)) k'" by auto
        then show ?thesis using unf lt xs ys ax byj by auto
      next
        case gt
        from less.hyps [OF _ less.prems(1) r(5) less.prems(3,4)] ys
        obtain res' k' where "Intersect_loop cl cr Insert t other lp q' res k = Some res'"
          "I res' (zs @ isect cl cr (map snd xs) (map snd ys')) k'" by auto
        then show ?thesis using unf gt xs ys ax byj by auto
      qed
    qed
  qed
qed

lemma isect_filter:
  "sorted_wrt (<) (map cl xs) \<Longrightarrow> sorted (map cr ys) \<Longrightarrow>
   isect cl cr xs ys = filter (\<lambda>x. cl x \<in> cr ` set ys) xs"
proof (induction cl cr xs ys rule: isect.induct)
  case (1 cl cr ys)
  then show ?case by simp
next
  case (2 cl cr x xs)
  then show ?case by simp
next
  case (3 cl cr x xs y ys)
  have xs_gt: "\<forall>x' \<in> set xs. cl x < cl x'" using "3.prems"(1) by simp
  have ys_ge: "\<forall>y' \<in> set ys. cr y \<le> cr y'" using "3.prems"(2) by simp
  consider (eq) "cl x = cr y" | (lt) "cl x \<noteq> cr y" "cl x < cr y" | (gt) "cl x \<noteq> cr y" "\<not> cl x < cr y"
    by blast
  then show ?case
  proof cases
    case eq
    have "isect cl cr xs ys = filter (\<lambda>x. cl x \<in> cr ` set ys) xs"
      using "3.IH"(1) [OF eq] "3.prems" by simp
    moreover have "filter (\<lambda>x. cl x \<in> cr ` set (y # ys)) xs = filter (\<lambda>x. cl x \<in> cr ` set ys) xs"
      using xs_gt eq by (intro filter_cong) auto
    ultimately show ?thesis using eq by simp
  next
    case lt
    have "isect cl cr xs (y # ys) = filter (\<lambda>x. cl x \<in> cr ` set (y # ys)) xs"
      using "3.IH"(2) [OF lt] "3.prems" by simp
    moreover have "cl x \<notin> cr ` set (y # ys)" using lt ys_ge by auto
    ultimately show ?thesis using lt by simp
  next
    case gt
    have "isect cl cr (x # xs) ys = filter (\<lambda>x. cl x \<in> cr ` set ys) (x # xs)"
      using "3.IH"(3) [OF gt] "3.prems" by simp
    moreover have "filter (\<lambda>x. cl x \<in> cr ` set (y # ys)) (x # xs) = filter (\<lambda>x. cl x \<in> cr ` set ys) (x # xs)"
      using xs_gt gt by (intro filter_cong) auto
    ultimately show ?thesis using gt by simp
  qed
qed

lemma iterate_chain:
  "iterate t p = Some zs \<Longrightarrow> \<exists>axs. chain t p axs None \<and> map snd axs = zs"
proof (induction zs arbitrary: p)
  case Nil
  then have "p = None"
    by (subst (asm) iterate.simps) (auto split: option.splits bind_splits)
  then show ?case by simp
next
  case (Cons z zs)
  from Cons.prems obtain a n p' where p: "p = Some a" "store t a = Some n" "incr t p = Some p'"
    "iterate t p' = Some zs" "item n = z"
    by (subst (asm) iterate.simps) (auto split: option.splits bind_splits)
  from Cons.IH [OF p(4)] obtain axs where axs: "chain t p' axs None" "map snd axs = zs" by blast
  have "chain t p ((a, z) # axs) None \<and> map snd ((a, z) # axs) = z # zs"
    using p axs by simp
  then show ?case by (rule exI)
qed

lemma inorder_items_chain:
  assumes "inorder_items t = Some zs"
  shows "\<exists>p axs. begin_it t = Some p \<and> chain t p axs None \<and> map snd axs = zs"
proof -
  from assms obtain p where p: "begin_it t = Some p" "iterate t p = Some zs"
    by (auto simp: inorder_items_def split: option.splits)
  from iterate_chain [OF p(2)] p(1) show ?thesis by blast
qed

lemma Intersect_merge:
  fixes I :: "('a::linorder, 'm) tree_obj \<Rightarrow> 'a list \<Rightarrow> addr \<Rightarrow> bool"
    and t :: "('a, 'm) tree_obj" and other :: "('b::linorder, 'k) tree_obj" and cl :: "'a \<Rightarrow> 'c::linorder"
  assumes ins: "\<And>res zs k x. I res zs k \<Longrightarrow> (\<forall>z \<in> set zs. z < x)
      \<Longrightarrow> \<exists>res'. Insert res k x = Some res' \<and> I res' (zs @ [x]) (Suc k)"
    and I0: "I empty_tree [] a"
    and fin: "\<And>res zs k. I res zs k \<Longrightarrow> inorder_items res = Some zs"
    and T: "inorder_items t = Some xs" "sorted_wrt (<) xs"
    and O: "inorder_items other = Some ys" "sorted_wrt (<) ys"
    and cl: "strict_mono_on (set xs) cl" and cr: "mono_on (set ys) cr"
  shows "\<exists>R. do { left_it \<leftarrow> begin_it t; right_it \<leftarrow> begin_it other;
                 Intersect_loop cl cr Insert t other left_it right_it empty_tree a } = Some R
      \<and> inorder_items R = Some (filter (\<lambda>x. cl x \<in> cr ` set ys) xs)"
proof -
  from inorder_items_chain [OF T(1)] obtain p axs where p: "begin_it t = Some p"
    "chain t p axs None" "map snd axs = xs"
    by blast
  from inorder_items_chain [OF O(1)] obtain q bys where q: "begin_it other = Some q"
    "chain other q bys None" "map snd bys = ys"
    by blast
  have sx: "sorted_wrt (<) ([] @ map snd axs)" using T(2) p(3) by simp
  from Intersect_loop_chain [where I = I and Insert = Insert and cl = cl and cr = cr,
      OF ins p(2) q(2) I0 sx]
  obtain R k' where R: "Intersect_loop cl cr Insert t other p q empty_tree a = Some R"
    "I R ([] @ isect cl cr (map snd axs) (map snd bys)) k'"
    by blast
  have "sorted_wrt (<) (map cl xs)"
    unfolding sorted_wrt_map
  proof (rule sorted_wrt_mono_rel [OF _ T(2)])
    fix x y assume "x \<in> set xs" "y \<in> set xs" "x < y"
    then show "cl x < cl y" using cl by (auto dest: strict_mono_onD)
  qed
  moreover have "sorted (map cr ys)"
    unfolding sorted_map
  proof (rule sorted_wrt_mono_rel [OF _ O(2)])
    fix x y assume "x \<in> set ys" "y \<in> set ys" "x < y"
    then show "cr x \<le> cr y" using cr by (auto dest: mono_onD)
  qed
  ultimately have "isect cl cr xs ys = filter (\<lambda>x. cl x \<in> cr ` set ys) xs"
    by (rule isect_filter)
  then have "inorder_items R = Some (filter (\<lambda>x. cl x \<in> cr ` set ys) xs)"
    using fin [OF R(2)] p(3) q(3) by simp
  then show ?thesis using p(1) q(1) R(1) by simp
qed

lemma is_tree_empty_tree: "is_tree empty_tree Leaf"
  by (simp add: is_tree_def empty_tree_def)

lemma set_tree_items_inorder:
  assumes "map snd (inorder sr) = zs"
  shows "set_tree (items sr) = set zs"
proof -
  have "set (map snd (inorder sr)) = snd ` set_tree sr" by (simp only: set_map set_inorder)
  then show ?thesis using assms by (simp only: tree.set_map)
qed

lemma RB_Intersect_filter:
  fixes t :: "'a::linorder RBTree" and other :: "('b::linorder, 'k) tree_obj" and cl :: "'a \<Rightarrow> 'c::linorder"
  assumes "inorder_items t = Some xs" "sorted_wrt (<) xs"
    and "inorder_items other = Some ys" "sorted_wrt (<) ys"
    and "strict_mono_on (set xs) cl" and "mono_on (set ys) cr"
  shows "\<exists>R. RB_Intersect cl cr t other a = Some R
      \<and> inorder_items R = Some (filter (\<lambda>x. cl x \<in> cr ` set ys) xs)"
  unfolding RB_Intersect_def
proof (rule Intersect_merge [where I = "\<lambda>res zs k. \<exists>sr. is_tree res sr \<and> map snd (inorder sr) = zs
      \<and> (root res \<noteq> None \<longrightarrow> fld color res (root res) = Some Black) \<and> (\<forall>b\<ge>k. store res b = None)",
      OF _ _ _ assms])
  fix res :: "'a RBTree" and zs k x
  assume "\<exists>sr. is_tree res sr \<and> map snd (inorder sr) = zs
      \<and> (root res \<noteq> None \<longrightarrow> fld color res (root res) = Some Black) \<and> (\<forall>b\<ge>k. store res b = None)"
    and big: "\<forall>z \<in> set zs. z < x"
  then obtain sr where sr: "is_tree res sr" "map snd (inorder sr) = zs"
    "root res \<noteq> None \<Longrightarrow> fld color res (root res) = Some Black" "\<forall>b\<ge>k. store res b = None"
    by auto
  have big': "\<forall>y \<in> set_tree (items sr). y < x"
    using big set_tree_items_inorder [OF sr(2)] by simp
  have fresh: "store res k = None" using sr(4) by simp
  from RB_Insert_max [OF sr(1,3) big' fresh]
  obtain t' s' where t': "RB_Insert res k x = Some t'" "is_tree t' s'" "inorder s' = inorder sr @ [(k, x)]"
    "fld color t' (root t') = Some Black" "\<And>b. store t' b = None \<longleftrightarrow> (store res b = None \<and> b \<noteq> k)"
    by blast
  have "\<forall>b\<ge>Suc k. store t' b = None" using t'(5) sr(4) by simp
  moreover have "map snd (inorder s') = zs @ [x]" using t'(3) sr(2) by simp
  ultimately show "\<exists>res'. RB_Insert res k x = Some res' \<and> (\<exists>sr. is_tree res' sr \<and> map snd (inorder sr) = zs @ [x]
      \<and> (root res' \<noteq> None \<longrightarrow> fld color res' (root res') = Some Black) \<and> (\<forall>b\<ge>Suc k. store res' b = None))"
    using t'(1,2,4) by blast
next
  have "is_tree (empty_tree :: 'a RBTree) Leaf \<and> map snd (inorder (Leaf :: (addr \<times> 'a) tree)) = []
      \<and> (root (empty_tree :: 'a RBTree) \<noteq> None \<longrightarrow> fld color (empty_tree :: 'a RBTree) (root (empty_tree :: 'a RBTree)) = Some Black)
      \<and> (\<forall>b\<ge>a. store (empty_tree :: 'a RBTree) b = None)"
    using is_tree_empty_tree by (simp add: empty_tree_def)
  then show "\<exists>sr. is_tree (empty_tree :: 'a RBTree) sr \<and> map snd (inorder sr) = []
      \<and> (root (empty_tree :: 'a RBTree) \<noteq> None \<longrightarrow> fld color (empty_tree :: 'a RBTree) (root (empty_tree :: 'a RBTree)) = Some Black)
      \<and> (\<forall>b\<ge>a. store (empty_tree :: 'a RBTree) b = None)"
    by (rule exI)
next
  fix res :: "'a RBTree" and zs k
  assume "\<exists>sr. is_tree res sr \<and> map snd (inorder sr) = zs
      \<and> (root res \<noteq> None \<longrightarrow> fld color res (root res) = Some Black) \<and> (\<forall>b\<ge>k. store res b = None)"
  then show "inorder_items res = Some zs" using inorder_items_tree by auto
qed

lemma AVL_Intersect_filter:
  fixes t :: "'a::linorder AVLTree" and other :: "('b::linorder, 'k) tree_obj" and cl :: "'a \<Rightarrow> 'c::linorder"
  assumes "inorder_items t = Some xs" "sorted_wrt (<) xs"
    and "inorder_items other = Some ys" "sorted_wrt (<) ys"
    and "strict_mono_on (set xs) cl" and "mono_on (set ys) cr"
  shows "\<exists>R. AVL_Intersect cl cr t other a = Some R
      \<and> inorder_items R = Some (filter (\<lambda>x. cl x \<in> cr ` set ys) xs)"
  unfolding AVL_Intersect_def
proof (rule Intersect_merge [where I = "\<lambda>res zs k. \<exists>sr. is_tree res sr \<and> map snd (inorder sr) = zs
      \<and> spine_bal res sr \<and> (\<forall>b\<ge>k. store res b = None)",
      OF _ _ _ assms])
  fix res :: "'a AVLTree" and zs k x
  assume "\<exists>sr. is_tree res sr \<and> map snd (inorder sr) = zs \<and> spine_bal res sr \<and> (\<forall>b\<ge>k. store res b = None)"
    and big: "\<forall>z \<in> set zs. z < x"
  then obtain sr where sr: "is_tree res sr" "map snd (inorder sr) = zs"
    "spine_bal res sr" "\<forall>b\<ge>k. store res b = None"
    by auto
  have big': "\<forall>y \<in> set_tree (items sr). y < x"
    using big set_tree_items_inorder [OF sr(2)] by simp
  have fresh: "store res k = None" using sr(4) by simp
  from AVL_Insert_max [OF sr(1,3) big' fresh]
  obtain t' s' where t': "AVL_Insert res k x = Some t'" "is_tree t' s'" "inorder s' = inorder sr @ [(k, x)]"
    "spine_bal t' s'" "\<And>b. store t' b = None \<longleftrightarrow> (store res b = None \<and> b \<noteq> k)"
    by blast
  have "\<forall>b\<ge>Suc k. store t' b = None" using t'(5) sr(4) by simp
  moreover have "map snd (inorder s') = zs @ [x]" using t'(3) sr(2) by simp
  ultimately show "\<exists>res'. AVL_Insert res k x = Some res' \<and> (\<exists>sr. is_tree res' sr \<and> map snd (inorder sr) = zs @ [x]
      \<and> spine_bal res' sr \<and> (\<forall>b\<ge>Suc k. store res' b = None))"
    using t'(1,2,4) by blast
next
  have "is_tree (empty_tree :: 'a AVLTree) Leaf \<and> map snd (inorder (Leaf :: (addr \<times> 'a) tree)) = []
      \<and> spine_bal (empty_tree :: 'a AVLTree) Leaf \<and> (\<forall>b\<ge>a. store (empty_tree :: 'a AVLTree) b = None)"
    using is_tree_empty_tree by (simp add: empty_tree_def spine_bal_def)
  then show "\<exists>sr. is_tree (empty_tree :: 'a AVLTree) sr \<and> map snd (inorder sr) = []
      \<and> spine_bal (empty_tree :: 'a AVLTree) sr \<and> (\<forall>b\<ge>a. store (empty_tree :: 'a AVLTree) b = None)"
    by (rule exI)
next
  fix res :: "'a AVLTree" and zs k
  assume "\<exists>sr. is_tree res sr \<and> map snd (inorder sr) = zs \<and> spine_bal res sr \<and> (\<forall>b\<ge>k. store res b = None)"
  then show "inorder_items res = Some zs" using inorder_items_tree by auto
qed

lemma inorder_items_example_RB: "inorder_items example_RB = Some [1, 2, 3]"
  using inorder_items_tree [OF is_tree_example_RB] by (simp add: example_shape_def)

lemma inorder_items_example_AVL: "inorder_items example_AVL = Some [1, 2, 3]"
  using inorder_items_tree [OF is_tree_example_AVL] by (simp add: example_shape_def)

lemma inorder_items_example_other: "inorder_items example_other = Some [2, 3, 5]"
proof -
  have "is_tree example_other (Node (Node Leaf (1, 2) Leaf) (0, 3) (Node Leaf (2, 5) Leaf))"
    by (simp add: is_tree_def example_other_def)
  from inorder_items_tree [OF this] show ?thesis by simp
qed

text \<open>
  The intersection test of main.cpp, on both trees: \<open>integerTree\<close> (the values of
  \<open>VALUES\<close>, three times 2, then 4, 6 and 42) intersected with \<open>secondTree\<close> gives a
  valid tree with the inorder sequence 7, 10, 12, 15, 16, 42.
\<close>

lemma Intersect_integer_trees:
  "Option.bind (RB_run (empty_tree :: int RBTree) 0
       [Ins 2, Ins 13, Ins 10, Ins 5, Ins 12, Ins 7, Ins 17, Ins 18, Ins 37, Ins 29, Ins 11, Ins 14,
        Ins 15, Ins 16, Ins 2, Ins 2, Ins 2, Ins 4, Ins 6, Ins 42]) (\<lambda>integerTree.
     Option.bind (RB_run (empty_tree :: int RBTree) 0
       [Ins (- 1), Ins 800, Ins 12, Ins 10, Ins 3, Ins 42, Ins 7, Ins 16, Ins 15]) (\<lambda>secondTree.
       Option.bind (RB_Intersect (\<lambda>x. x) (\<lambda>y. y) integerTree secondTree 0) (\<lambda>intersectionTree.
         Option.bind (RB_IsValid intersectionTree) (\<lambda>valid.
           Option.bind (inorder_items intersectionTree) (\<lambda>xs. Some (valid, xs))))))
   = Some (True, [7, 10, 12, 15, 16, 42])
   \<and> Option.bind (AVL_run (empty_tree :: int AVLTree) 0
       [Ins 2, Ins 13, Ins 10, Ins 5, Ins 12, Ins 7, Ins 17, Ins 18, Ins 37, Ins 29, Ins 11, Ins 14,
        Ins 15, Ins 16, Ins 2, Ins 2, Ins 2, Ins 4, Ins 6, Ins 42]) (\<lambda>integerTree.
     Option.bind (AVL_run (empty_tree :: int AVLTree) 0
       [Ins (- 1), Ins 800, Ins 12, Ins 10, Ins 3, Ins 42, Ins 7, Ins 16, Ins 15]) (\<lambda>secondTree.
       Option.bind (AVL_Intersect (\<lambda>x. x) (\<lambda>y. y) integerTree secondTree 0) (\<lambda>intersectionTree.
         Option.bind (AVL_IsValid intersectionTree) (\<lambda>valid.
           Option.bind (inorder_items intersectionTree) (\<lambda>xs. Some (valid, xs))))))
   = Some (True, [7, 10, 12, 15, 16, 42])"
  by code_simp

text \<open>
  C6 (fails as stated, for containers of different element types): an \<open>RBTree<int>\<close> that
  holds 16777217 and an \<open>AVLTree<float>\<close> that holds 16777216 and 16777218 have no element
  in common. Both expose an ordered, duplicate-free iteration, and \<open>Intersect\<close> returns a
  tree whose inorder sequence is 16777217: the comparison \<open>*left == *right\<close> converts
  16777217 to \<open>float\<close>, which gives 16777216.
\<close>

theorem Intersect_int_float_not_intersection:
  "Option.bind (RB_run (empty_tree :: int RBTree) 0 [Ins 16777217]) (\<lambda>A.
     Option.bind (AVL_run (empty_tree :: int AVLTree) 0 [Ins 16777216, Ins 16777218]) (\<lambda>B.
       Option.bind (RB_Intersect int_to_float (\<lambda>y. y) A B 0) (\<lambda>R.
         Option.bind (inorder_items A) (\<lambda>as. Option.bind (inorder_items B) (\<lambda>bs.
           Option.bind (inorder_items R) (\<lambda>rs. Some (as, bs, rs)))))))
   = Some ([16777217], [16777216, 16777218], [16777217])"
  by code_simp

text \<open>
  C6 (amended): let the inorder iterations of the trees \<open>A\<close> (red-black), \<open>A'\<close> (AVL) and of
  the container \<open>B\<close> end and yield the strictly ascending sequences \<open>xs\<close>, \<open>xs'\<close> and \<open>ys\<close>,
  and let the conversions that the comparisons apply be strictly increasing on the
  elements of \<open>A\<close> and \<open>A'\<close> (\<open>cl\<close>) and increasing on the elements of \<open>B\<close> (\<open>cr\<close>); the
  identity, which is the conversion for containers of the same element type, is both. Then
  \<open>A.Intersect(B)\<close> and \<open>A'.Intersect(B)\<close> return, and the inorder iteration of the tree
  returned yields the elements of \<open>A\<close> (of \<open>A'\<close>) whose value occurs in \<open>B\<close>, in ascending
  order: the sorted intersection.
\<close>

theorem Intersect_sorted_intersection:
  fixes A :: "'a::linorder RBTree" and A' :: "'a AVLTree" and B :: "('b::linorder, 'k) tree_obj"
    and cl :: "'a \<Rightarrow> 'c::linorder"
  assumes "inorder_items A = Some xs" "sorted_wrt (<) xs"
    and "inorder_items A' = Some xs'" "sorted_wrt (<) xs'"
    and "inorder_items B = Some ys" "sorted_wrt (<) ys"
    and "strict_mono_on (set xs \<union> set xs') cl" and "mono_on (set ys) cr"
  shows "(\<exists>R. RB_Intersect cl cr A B a = Some R
            \<and> inorder_items R = Some (filter (\<lambda>x. cl x \<in> cr ` set ys) xs))
       \<and> (\<exists>R. AVL_Intersect cl cr A' B a = Some R
            \<and> inorder_items R = Some (filter (\<lambda>x. cl x \<in> cr ` set ys) xs'))"
proof
  have "strict_mono_on (set xs) cl"
    using assms(7) by (auto simp: strict_mono_on_def)
  from RB_Intersect_filter [OF assms(1,2,5,6) this assms(8)]
  show "\<exists>R. RB_Intersect cl cr A B a = Some R
            \<and> inorder_items R = Some (filter (\<lambda>x. cl x \<in> cr ` set ys) xs)" .
  have "strict_mono_on (set xs') cl"
    using assms(7) by (auto simp: strict_mono_on_def)
  from AVL_Intersect_filter [OF assms(3,4,5,6) this assms(8)]
  show "\<exists>R. AVL_Intersect cl cr A' B a = Some R
            \<and> inorder_items R = Some (filter (\<lambda>x. cl x \<in> cr ` set ys) xs')" .
qed

theorem Intersect_sorted_intersection_witness:
  "(\<exists>R. RB_Intersect (\<lambda>x. x) (\<lambda>y. y) example_RB example_other 0 = Some R \<and> inorder_items R = Some [2, 3])
 \<and> (\<exists>R. AVL_Intersect (\<lambda>x. x) (\<lambda>y. y) example_AVL example_other 0 = Some R \<and> inorder_items R = Some [2, 3])"
proof -
  have 1: "sorted_wrt (<) [1, 2, 3 :: int]" and 2: "sorted_wrt (<) [2, 3, 5 :: int]" by simp_all
  have 3: "strict_mono_on (set [1, 2, 3] \<union> set [1, 2, 3]) (\<lambda>x :: int. x)"
    by (simp add: strict_mono_on_def)
  have 4: "mono_on (set [2, 3, 5]) (\<lambda>y :: int. y)"
    by (simp add: mono_on_def)
  show ?thesis
    using Intersect_sorted_intersection [OF inorder_items_example_RB 1 inorder_items_example_AVL 1
      inorder_items_example_other 2 3 4, of 0]
    by simp
qed

end
